theory Spec2Isabelle
  imports Main "HOL-Library.Word" "HOL-Library.Signed_Division" "HOL-Library.Monad_Syntax"
begin

unbundle bit_operations_syntax

section \<open>Dual ADC test firmware (adc-dual-stm32f103.c)\<close>

text \<open>
  The firmware is modelled by explicit state passing. The state holds the globals of the
  translation unit (\<open>v\<close>, \<open>n_conv\<close>, the two ring buffers, the two static locals of the
  interrupt handlers), the few peripheral registers whose contents the handlers change
  (the USART1 transmit-empty interrupt enable, the registers of DMA1 channel 1, the regular
  sequences of the two converters) and \<open>calls\<close>: the log, in program order, of every call
  that leaves the translation unit (libopencm3 and buffer.h).
  Volatile reads of hardware flags are answered by an oracle: a function from the number of
  the poll to the value read.
\<close>

subsection \<open>C types\<close>

type_synonym uint8_t = "8 word"
type_synonym uint16_t = "16 word"
type_synonym uint32_t = "32 word"

text \<open>\<open>int\<close> of the target (ARM Cortex-M3): 32 bits, two's complement.\<close>
type_synonym c_int = "32 word"

text \<open>C's \<open>/\<close> and \<open>%\<close> on \<open>int\<close> truncate towards zero.\<close>

definition c_div :: "c_int \<Rightarrow> c_int \<Rightarrow> c_int" where
  "c_div a b = word_of_int (sint a sdiv sint b)"

definition c_mod :: "c_int \<Rightarrow> c_int \<Rightarrow> c_int" where
  "c_mod a b = word_of_int (sint a smod sint b)"

subsection \<open>Ring buffer (buffer.h)\<close>

text \<open>
  Modelled from the spec: the ring buffer type of buffer.h, whose source is not part of the
  files at hand. The spec gives it a head index, a tail index and a capacity over a fixed
  array of byte slots.
\<close>

record ring_buffer =
  slots :: "uint8_t list"
  head :: nat
  tail :: nat
  capacity :: nat

text \<open>
  Modelled from the spec: \<open>buffer_init\<close> of buffer.h, "init(capacity) resets head/tail to
  zero"; the array of slots is the caller's and is left as it is.
\<close>

definition buffer_init :: "ring_buffer \<Rightarrow> nat \<Rightarrow> ring_buffer" where
  "buffer_init b n = b\<lparr>head := 0, tail := 0, capacity := n\<rparr>"

text \<open>
  Modelled from the spec: the full test of buffer.h. "head == tail means empty" and one
  slot is "reserved to distinguish full/empty", so the buffer is full when advancing the
  tail would reach the head: a buffer of capacity \<open>n\<close> holds \<open>n - 1\<close> bytes. (The spec's
  test of the capacity counts one byte more; nothing below depends on the difference.)
\<close>

definition buffer_full :: "ring_buffer \<Rightarrow> bool" where
  "buffer_full b = ((tail b + 1) mod capacity b = head b)"

text \<open>
  Modelled from the spec: \<open>buffer_put\<close> of buffer.h, "put(byte) writes at tail and
  advances it; if the buffer is full, the write is a no-op (byte is lost)".
\<close>

definition buffer_put :: "ring_buffer \<Rightarrow> uint8_t \<Rightarrow> ring_buffer" where
  "buffer_put b x =
     (if buffer_full b then b
      else b\<lparr>slots := (slots b)[tail b := x], tail := (tail b + 1) mod capacity b\<rparr>)"

text \<open>
  Modelled from the spec: the empty marker of buffer.h, "a sentinel value (here a reserved
  high bit pattern)". The spec does not give its value; the least 16-bit value above the
  byte range is taken.
\<close>

definition BUFFER_EMPTY :: uint16_t where
  "BUFFER_EMPTY = 0x100"

text \<open>
  Modelled from the spec: \<open>buffer_get\<close> of buffer.h, "get() reads at head and advances
  it, returning a sentinel value when empty"; an empty read "does not advance state".
\<close>

definition buffer_get :: "ring_buffer \<Rightarrow> uint16_t \<times> ring_buffer" where
  "buffer_get b =
     (if head b = tail b then (BUFFER_EMPTY, b)
      else (ucast (slots b ! head b), b\<lparr>head := (head b + 1) mod capacity b\<rparr>))"

text \<open>The bytes waiting in a buffer, oldest first.\<close>

definition buffer_used :: "ring_buffer \<Rightarrow> nat" where
  "buffer_used b = (tail b + capacity b - head b) mod capacity b"

definition buffer_contents :: "ring_buffer \<Rightarrow> uint8_t list" where
  "buffer_contents b =
     map (\<lambda>k. slots b ! ((head b + k) mod capacity b)) [0..<buffer_used b]"

definition buffer_free :: "ring_buffer \<Rightarrow> nat" where
  "buffer_free b = capacity b - 1 - buffer_used b"

definition buffer_wf :: "ring_buffer \<Rightarrow> bool" where
  "buffer_wf b = (0 < capacity b \<and> capacity b \<le> length (slots b)
                  \<and> head b < capacity b \<and> tail b < capacity b)"

subsection \<open>Program state and the log of external calls\<close>

datatype buffer_id = Send | Receive

datatype adc = ADC1 | ADC2

datatype address = Null | Addr_ADC1_DR | Addr_v

datatype call =
    Buffer_init buffer_id nat
  | Buffer_put buffer_id uint8_t
  | Buffer_get buffer_id
  | Usart_enable_tx_interrupt
  | Usart_disable_tx_interrupt
  | Usart_get_flag_RXNE bool
  | Usart_get_flag_TXE bool
  | Usart_recv uint16_t
  | Usart_send uint16_t
  | Dma_channel_reset
  | Dma_set_peripheral_address address
  | Dma_set_memory_address address
  | Dma_set_number_of_data uint16_t
  | Dma_enable_channel
  | Timer_get_flag bool
  | Timer_clear_flag
  | Adc_is_calibrating adc bool
  | Adc_set_regular_sequence adc "uint8_t list"
  | Adc_start_conversion_regular adc
  | Lib string

record state =
  v :: "uint32_t list"
  n_conv :: uint8_t
  send_buffer :: ring_buffer
  receive_buffer :: ring_buffer
  isr_i :: uint8_t
  isr_data :: uint16_t
  txeie :: bool
  dma_cpar :: address
  dma_cmar :: address
  dma_cndtr :: uint16_t
  dma_en :: bool
  adc1_sq :: "uint8_t list"
  adc2_sq :: "uint8_t list"
  calls :: "call list"

text \<open>\<open>isr_i\<close> is the \<open>static uint8_t i\<close> of \<open>adc1_2_isr\<close>, \<open>isr_data\<close> the
  \<open>static uint16_t data\<close> of \<open>usart1_isr\<close>.\<close>

text \<open>\<open>v\<close> is the array \<open>uint32_t v[128]\<close>: a list of 128 words in the initial state, and
  no function below changes its length. The handler reads \<open>v[i]\<close> only for
  \<open>i < n_conv/2\<close>, which is at most 127, so every read is inside the array.\<close>

definition BUFFER_SIZE :: nat where
  "BUFFER_SIZE = 128"

text \<open>The globals as the C start-up code leaves them: zeroed, \<open>n_conv\<close> initialised to 8;
  the peripheral registers at their reset values.\<close>

definition init_state :: state where
  "init_state = \<lparr>
     v = replicate 128 0,
     n_conv = 8,
     send_buffer = \<lparr>slots = replicate (BUFFER_SIZE + 3) 0, head = 0, tail = 0, capacity = 0\<rparr>,
     receive_buffer = \<lparr>slots = replicate (BUFFER_SIZE + 3) 0, head = 0, tail = 0, capacity = 0\<rparr>,
     isr_i = 0,
     isr_data = 0,
     txeie = False,
     dma_cpar = Null,
     dma_cmar = Null,
     dma_cndtr = 0,
     dma_en = False,
     adc1_sq = [],
     adc2_sq = [],
     calls = []\<rparr>"

definition log :: "call \<Rightarrow> state \<Rightarrow> state" where
  "log c st = st\<lparr>calls := calls st @ [c]\<rparr>"

text \<open>A library call with constant arguments and no effect on the modelled registers,
  logged by its source text.\<close>

definition lib :: "string \<Rightarrow> state \<Rightarrow> state" where
  "lib name st = log (Lib name) st"

text \<open>Statements in sequence.\<close>

definition run :: "(state \<Rightarrow> state) list \<Rightarrow> state \<Rightarrow> state" where
  "run fs st = fold (\<lambda>f. f) fs st"

subsection \<open>The calls into buffer.h and libopencm3 that change the state\<close>

text \<open>\<open>buffer_put(send_buffer, c)\<close> and \<open>buffer_put(receive_buffer, c)\<close>.\<close>

definition put_send :: "uint8_t \<Rightarrow> state \<Rightarrow> state" where
  "put_send c st =
     log (Buffer_put Send c) (st\<lparr>send_buffer := buffer_put (send_buffer st) c\<rparr>)"

definition put_receive :: "uint8_t \<Rightarrow> state \<Rightarrow> state" where
  "put_receive c st =
     log (Buffer_put Receive c) (st\<lparr>receive_buffer := buffer_put (receive_buffer st) c\<rparr>)"

definition usart_enable_tx_interrupt :: "state \<Rightarrow> state" where
  "usart_enable_tx_interrupt st = log Usart_enable_tx_interrupt (st\<lparr>txeie := True\<rparr>)"

definition usart_disable_tx_interrupt :: "state \<Rightarrow> state" where
  "usart_disable_tx_interrupt st = log Usart_disable_tx_interrupt (st\<lparr>txeie := False\<rparr>)"

definition usart_send :: "uint16_t \<Rightarrow> state \<Rightarrow> state" where
  "usart_send d st = log (Usart_send d) st"

text \<open>\<open>dma_channel_reset\<close> disables the channel and clears its registers.\<close>

definition dma_channel_reset :: "state \<Rightarrow> state" where
  "dma_channel_reset st =
     log Dma_channel_reset
       (st\<lparr>dma_cpar := Null, dma_cmar := Null, dma_cndtr := 0, dma_en := False\<rparr>)"

definition dma_set_peripheral_address :: "address \<Rightarrow> state \<Rightarrow> state" where
  "dma_set_peripheral_address a st = log (Dma_set_peripheral_address a) (st\<lparr>dma_cpar := a\<rparr>)"

definition dma_set_memory_address :: "address \<Rightarrow> state \<Rightarrow> state" where
  "dma_set_memory_address a st = log (Dma_set_memory_address a) (st\<lparr>dma_cmar := a\<rparr>)"

definition dma_set_number_of_data :: "uint16_t \<Rightarrow> state \<Rightarrow> state" where
  "dma_set_number_of_data n st = log (Dma_set_number_of_data n) (st\<lparr>dma_cndtr := n\<rparr>)"

definition dma_enable_channel :: "state \<Rightarrow> state" where
  "dma_enable_channel st = log Dma_enable_channel (st\<lparr>dma_en := True\<rparr>)"

definition timer_clear_flag :: "state \<Rightarrow> state" where
  "timer_clear_flag st = log Timer_clear_flag st"

definition adc_start_conversion_regular :: "adc \<Rightarrow> state \<Rightarrow> state" where
  "adc_start_conversion_regular a st = log (Adc_start_conversion_regular a) st"

text \<open>\<open>adc_set_regular_sequence(adc, length, channel)\<close> programs the first \<open>length\<close>
  entries of \<open>channel\<close> as the regular sequence; more than 16 are refused.\<close>

definition adc_set_regular_sequence :: "adc \<Rightarrow> nat \<Rightarrow> uint8_t list \<Rightarrow> state \<Rightarrow> state" where
  "adc_set_regular_sequence a len channel st =
     (if len > 16 then log (Adc_set_regular_sequence a (take len channel)) st
      else case a of
        ADC1 \<Rightarrow> log (Adc_set_regular_sequence a (take len channel)) (st\<lparr>adc1_sq := take len channel\<rparr>)
      | ADC2 \<Rightarrow> log (Adc_set_regular_sequence a (take len channel)) (st\<lparr>adc2_sq := take len channel\<rparr>))"

text \<open>The register \<open>ADCx_SQR3\<close> as \<open>adc_set_regular_sequence\<close> writes it: the first six
  entries of the regular sequence, the \<open>k\<close>-th shifted left by \<open>5 * k\<close> bits.\<close>

fun sqr3 :: "uint8_t list \<Rightarrow> nat \<Rightarrow> uint32_t" where
  "sqr3 [] k = 0"
| "sqr3 (c # cs) k = (if k < 6 then push_bit (5 * k) (ucast c) OR sqr3 cs (Suc k) else 0)"

subsection \<open>Printing\<close>

text \<open>\<open>usart_print_string\<close>: the characters up to the terminating NUL.\<close>

fun usart_print_string :: "string \<Rightarrow> state \<Rightarrow> state" where
  "usart_print_string [] st = st"
| "usart_print_string (ch # rest) st =
     (if ch = CHR 0x00 then st else usart_print_string rest (put_send (of_char ch) st))"

text \<open>The digit loop of \<open>usart_print_int\<close>: \<open>buffer\<close> is the filled part of the local
  \<open>char buffer[25]\<close>, its length is \<open>nr_digits\<close> (an \<open>int\<close> has at most ten digits).\<close>

function print_int_digits :: "c_int \<Rightarrow> string \<Rightarrow> string" where
  "print_int_digits val buffer =
     (if 0 < sint val
      then print_int_digits (c_div val 10)
             (buffer @ [''0123456789'' ! nat (sint (c_mod val 10))])
      else buffer)"
  by pat_completeness auto

lemma sint_word_of_int_32:
  "- 2147483648 \<le> k \<Longrightarrow> k < 2147483648 \<Longrightarrow> sint (word_of_int k :: c_int) = k"
  by (simp add: sint_sbintrunc' signed_take_bit_int_eq_self)

lemma sint_c_div_10: "0 < sint x \<Longrightarrow> sint (c_div x 10) = sint x div 10"
proof -
  assume p: "0 < sint x"
  have b: "sint x < 2147483648" using sint_lt [of x] by simp
  have "sint x sdiv 10 = sint x div 10" using p by (simp add: signed_divide_int_def sgn_if)
  moreover have "sint (word_of_int (sint x div 10) :: c_int) = sint x div 10"
    using p b by (intro sint_word_of_int_32) auto
  ultimately show ?thesis by (simp add: c_div_def)
qed

lemma sint_c_mod_10: "0 < sint x \<Longrightarrow> sint (c_mod x 10) = sint x mod 10"
proof -
  assume p: "0 < sint x"
  have "sint x smod 10 = sint x mod 10" using p by (simp add: signed_modulo_int_def sgn_if)
  moreover have "sint (word_of_int (sint x mod 10) :: c_int) = sint x mod 10"
    by (intro sint_word_of_int_32) auto
  ultimately show ?thesis by (simp add: c_mod_def)
qed

termination print_int_digits
proof (relation "measure (\<lambda>(val, buffer). nat (sint val))")
  show "wf (measure (\<lambda>(val, buffer). nat (sint val)))" by simp
next
  fix val :: c_int and buffer :: string
  assume "0 < sint val"
  then show "((c_div val 10, buffer @ [''0123456789'' ! nat (sint (c_mod val 10))]), (val, buffer))
       \<in> measure (\<lambda>(val, buffer). nat (sint val))"
    by (simp add: sint_c_div_10)
qed

declare print_int_digits.simps [simp del]

text \<open>The output loop of \<open>usart_print_int\<close>: \<open>for (i = nr_digits; i > 0; i--)\<close>.\<close>

fun print_int_emit :: "nat \<Rightarrow> string \<Rightarrow> state \<Rightarrow> state" where
  "print_int_emit 0 buffer st = st"
| "print_int_emit (Suc i) buffer st =
     print_int_emit i buffer (put_send (of_char (buffer ! i)) st)"

text \<open>\<open>usart_print_int\<close>. The product \<open>value * -1\<close> is taken in 32 bits; it overflows
  only for the least \<open>int\<close>, which stays negative and is then printed without digits.\<close>

definition usart_print_int :: "c_int \<Rightarrow> state \<Rightarrow> state" where
  "usart_print_int val0 st0 =
     (let (val, st) = (if sint val0 < 0
                       then (val0 * (- 1), put_send (of_char CHR ''-'') st0)
                       else (val0, st0));
          buffer = (if val = 0 then ''0'' else print_int_digits val []);
          st = print_int_emit (length buffer) buffer st
      in put_send (of_char CHR '' '') st)"

subsection \<open>Set-up functions\<close>

definition clock_setup :: "state \<Rightarrow> state" where
  "clock_setup = lib ''rcc_clock_setup_in_hse_8mhz_out_72mhz()''"

definition usart_setup :: "state \<Rightarrow> state" where
  "usart_setup = run
     [lib ''rcc_periph_clock_enable(RCC_GPIOA)'',
      lib ''rcc_periph_clock_enable(RCC_AFIO)'',
      lib ''rcc_periph_clock_enable(RCC_USART1)'',
      lib ''nvic_enable_irq(NVIC_USART1_IRQ)'',
      lib ''gpio_set_mode(GPIOA, GPIO_MODE_OUTPUT_50_MHZ, GPIO_CNF_OUTPUT_ALTFN_PUSHPULL, GPIO_USART1_TX)'',
      lib ''gpio_set_mode(GPIOA, GPIO_MODE_INPUT, GPIO_CNF_INPUT_FLOAT, GPIO_USART1_RX)'',
      lib ''usart_set_baudrate(USART1, 38400)'',
      lib ''usart_set_databits(USART1, 8)'',
      lib ''usart_set_stopbits(USART1, USART_STOPBITS_1)'',
      lib ''usart_set_parity(USART1, USART_PARITY_NONE)'',
      lib ''usart_set_flow_control(USART1, USART_FLOWCONTROL_NONE)'',
      lib ''usart_set_mode(USART1, USART_MODE_TX_RX)'',
      lib ''usart_enable_rx_interrupt(USART1)'',
      usart_disable_tx_interrupt,
      lib ''usart_enable(USART1)'']"

text \<open>The body of \<open>gpio_setup\<close> is commented out in the source.\<close>

definition gpio_setup :: "state \<Rightarrow> state" where
  "gpio_setup st = st"

definition dma_setup :: "state \<Rightarrow> state" where
  "dma_setup = run
     [lib ''rcc_peripheral_enable_clock(&RCC_AHBENR, RCC_AHBENR_DMA1EN)'',
      dma_channel_reset,
      lib ''dma_set_priority(DMA1,DMA_CHANNEL1,DMA_CCR_PL_LOW)'',
      lib ''dma_set_memory_size(DMA1,DMA_CHANNEL1,DMA_CCR_MSIZE_32BIT)'',
      lib ''dma_set_peripheral_size(DMA1,DMA_CHANNEL1,DMA_CCR_PSIZE_32BIT)'',
      lib ''dma_enable_memory_increment_mode(DMA1,DMA_CHANNEL1)'',
      lib ''dma_set_read_from_peripheral(DMA1,DMA_CHANNEL1)'',
      dma_set_peripheral_address Addr_ADC1_DR,
      dma_set_memory_address Addr_v,
      dma_set_number_of_data 64,
      dma_enable_channel]"

text \<open>\<open>while (adc_is_calibrating(ADCx));\<close> The oracle \<open>cal k\<close> is the value of the
  calibration bit at the \<open>k\<close>-th poll. The loop has no other exit, so it is a partial
  function: \<open>None\<close> is the loop that never ends.\<close>

partial_function (option) wait_calibration ::
  "adc \<Rightarrow> (nat \<Rightarrow> bool) \<Rightarrow> nat \<Rightarrow> state \<Rightarrow> state option" where
  "wait_calibration a cal k st =
     (if cal k then wait_calibration a cal (Suc k) (log (Adc_is_calibrating a True) st)
      else Some (log (Adc_is_calibrating a False) st))"

text \<open>The delay loops \<open>for (i = 0; i < 800000; i++) __asm__("nop");\<close> end (the bound is
  below \<open>2^32\<close>) and change nothing of the state.\<close>

definition nop_delay :: "state \<Rightarrow> state" where
  "nop_delay st = st"

text \<open>\<open>adc_setup\<close>, lines 219 to 254: the configuration of the two converters, the
  power-on of ADC1 and the start of its calibration.\<close>

definition adc_setup_configure :: "state \<Rightarrow> state" where
  "adc_setup_configure = run
     [lib ''rcc_peripheral_enable_clock(&RCC_APB2ENR, RCC_APB2ENR_IOPAEN | RCC_APB2ENR_AFIOEN | RCC_APB2ENR_ADC1EN)'',
      lib ''rcc_peripheral_enable_clock(&RCC_APB2ENR, RCC_APB2ENR_IOPAEN | RCC_APB2ENR_AFIOEN | RCC_APB2ENR_ADC2EN)'',
      lib ''nvic_enable_irq(NVIC_ADC1_2_IRQ)'',
      lib ''gpio_set_mode(GPIOA, GPIO_MODE_INPUT, GPIO_CNF_INPUT_ANALOG, GPIO0 | GPIO1 | GPIO2 | GPIO3 | GPIO4 | GPIO5 | GPIO6 | GPIO7)'',
      lib ''adc_power_off(ADC1)'',
      lib ''adc_power_off(ADC2)'',
      lib ''adc_enable_scan_mode(ADC1)'',
      lib ''adc_set_single_conversion_mode(ADC1)'',
      lib ''adc_enable_external_trigger_regular(ADC1, ADC_CR2_EXTSEL_SWSTART)'',
      lib ''adc_set_right_aligned(ADC1)'',
      lib ''adc_set_sample_time_on_all_channels(ADC1, ADC_SMPR_SMP_28DOT5CYC)'',
      lib ''adc_enable_dma(ADC1)'',
      lib ''adc_enable_eoc_interrupt(ADC1)'',
      lib ''adc_set_dual_mode(ADC_CR1_DUALMOD_RSM)'',
      lib ''adc_enable_scan_mode(ADC2)'',
      lib ''adc_set_single_conversion_mode(ADC2)'',
      lib ''adc_enable_external_trigger_regular(ADC2, ADC_CR2_EXTSEL_SWSTART)'',
      lib ''adc_set_right_aligned(ADC2)'',
      lib ''adc_set_sample_time_on_all_channels(ADC2, ADC_SMPR_SMP_28DOT5CYC)'',
      lib ''adc_power_on(ADC1)'',
      nop_delay,
      lib ''adc_reset_calibration(ADC1)'',
      lib ''adc_calibrate_async(ADC1)'']"

text \<open>\<open>adc_setup\<close>, lines 256 to 261: the power-on of ADC2 and the start of its
  calibration.\<close>

definition adc_setup_second :: "state \<Rightarrow> state" where
  "adc_setup_second = run
     [lib ''adc_power_on(ADC2)'',
      nop_delay,
      lib ''adc_reset_calibration(ADC2)'',
      lib ''adc_calibrate_async(ADC2)'']"

text \<open>\<open>adc_setup\<close>: the two blocks, each followed by the wait for the end of the
  calibration (lines 255 and 262).\<close>

definition adc_setup :: "(nat \<Rightarrow> bool) \<Rightarrow> (nat \<Rightarrow> bool) \<Rightarrow> state \<Rightarrow> state option" where
  "adc_setup cal1 cal2 st0 = do {
     st \<leftarrow> wait_calibration ADC1 cal1 0 (adc_setup_configure st0);
     wait_calibration ADC2 cal2 0 (adc_setup_second st)
   }"

definition timer_setup :: "state \<Rightarrow> state" where
  "timer_setup = run
     [lib ''rcc_peripheral_enable_clock(&RCC_APB1ENR, RCC_APB1ENR_TIM2EN)'',
      lib ''timer_reset(TIM2)'',
      lib ''timer_set_mode(TIM2, TIM_CR1_CKD_CK_INT_MUL_4, TIM_CR1_CMS_EDGE, TIM_CR1_DIR_UP)'',
      lib ''timer_continuous_mode(TIM2)'',
      lib ''timer_set_period(TIM2, 0xFFFF)'',
      lib ''timer_enable_oc_output(TIM2, TIM_OC1)'',
      lib ''timer_disable_oc_clear(TIM2, TIM_OC1)'',
      lib ''timer_disable_oc_preload(TIM2, TIM_OC1)'',
      lib ''timer_set_oc_slow_mode(TIM2, TIM_OC1)'',
      lib ''timer_set_oc_mode(TIM2, TIM_OC1, TIM_OCM_TOGGLE)'',
      lib ''timer_set_oc_value(TIM2, TIM_OC1, 0x8FFF)'',
      lib ''timer_disable_preload(TIM2)'',
      lib ''timer_enable_counter(TIM2)'']"

subsection \<open>What the printing functions hand to the send buffer\<close>

text \<open>\<open>emit_bytes bs\<close> is \<open>buffer_put(send_buffer, b)\<close> for each byte \<open>b\<close> of \<open>bs\<close> in turn;
  the printing functions are shown below to be instances of it.\<close>

definition emit_bytes :: "uint8_t list \<Rightarrow> state \<Rightarrow> state" where
  "emit_bytes bs st =
     st\<lparr>send_buffer := fold (\<lambda>x b. buffer_put b x) bs (send_buffer st),
        calls := calls st @ map (Buffer_put Send) bs\<rparr>"

text \<open>The characters of a C string: those before the first NUL.\<close>

definition c_string :: "string \<Rightarrow> string" where
  "c_string s = takeWhile (\<lambda>ch. ch \<noteq> CHR 0x00) s"

text \<open>The digits \<open>usart_print_int\<close> collects for a non-negative value, least significant
  first, and the bytes it puts for a value.\<close>

definition int_digits :: "c_int \<Rightarrow> string" where
  "int_digits val = (if val = 0 then ''0'' else print_int_digits val [])"

definition int_bytes :: "c_int \<Rightarrow> uint8_t list" where
  "int_bytes val =
     (if sint val < 0 then [of_char CHR ''-''] else [])
     @ map of_char (rev (int_digits (if sint val < 0 then val * (- 1) else val)))
     @ [of_char CHR '' '']"

lemma emit_bytes_Nil: "emit_bytes [] st = st"
  by (simp add: emit_bytes_def)

lemma put_send_emit: "put_send c st = emit_bytes [c] st"
  by (simp add: put_send_def emit_bytes_def log_def)

lemma emit_bytes_append: "emit_bytes ys (emit_bytes xs st) = emit_bytes (xs @ ys) st"
  by (simp add: emit_bytes_def)

lemma usart_print_string_emit:
  "usart_print_string s st = emit_bytes (map of_char (c_string s)) st"
proof (induction s arbitrary: st)
  case Nil
  show ?case by (simp add: c_string_def emit_bytes_Nil)
next
  case (Cons ch rest)
  show ?case
  proof (cases "ch = CHR 0x00")
    case True
    then show ?thesis by (simp add: c_string_def emit_bytes_Nil)
  next
    case False
    have "usart_print_string (ch # rest) st = usart_print_string rest (put_send (of_char ch) st)"
      using False by simp
    also have "\<dots> = emit_bytes (map of_char (c_string rest)) (emit_bytes [of_char ch] st)"
      by (simp add: Cons.IH put_send_emit)
    also have "\<dots> = emit_bytes (map of_char (c_string (ch # rest))) st"
      using False by (simp add: emit_bytes_append c_string_def)
    finally show ?thesis .
  qed
qed

lemma print_int_emit_emit:
  "i \<le> length buffer \<Longrightarrow>
   print_int_emit i buffer st = emit_bytes (map of_char (rev (take i buffer))) st"
proof (induction i arbitrary: st)
  case 0
  show ?case by (simp add: emit_bytes_Nil)
next
  case (Suc i)
  then have "take (Suc i) buffer = take i buffer @ [buffer ! i]"
    by (simp add: take_Suc_conv_app_nth)
  then show ?case using Suc by (simp add: put_send_emit emit_bytes_append)
qed

lemma usart_print_int_emit: "usart_print_int val st = emit_bytes (int_bytes val) st"
  by (simp add: usart_print_int_def int_bytes_def int_digits_def Let_def put_send_emit
      print_int_emit_emit emit_bytes_append)

subsection \<open>Interrupt handlers\<close>

text \<open>The loop of \<open>adc1_2_isr\<close>; its counter is the static \<open>i\<close>, so it lives in the state.\<close>

function adc1_2_isr_loop :: "state \<Rightarrow> state" where
  "adc1_2_isr_loop st =
     (if unat (isr_i st) < unat (n_conv st) div 2
      then adc1_2_isr_loop (run
             [\<lambda>s. usart_print_int (v s ! unat (isr_i s) AND 0xFFFF) s,
              usart_print_string ''- '',
              \<lambda>s. usart_print_int (drop_bit 16 (v s ! unat (isr_i s))) s,
              \<lambda>s. s\<lparr>isr_i := isr_i s + 1\<rparr>] st)
      else st)"
  by pat_completeness auto

lemma isr_i_step:
  "unat (i :: uint8_t) < unat (n :: uint8_t) div 2 \<Longrightarrow> unat (i + 1) = Suc (unat i)"
proof -
  assume a: "unat i < unat n div 2"
  have "unat n < 256" using unsigned_less [of n, where 'a = nat] by simp
  with a have "unat i + unat (1 :: uint8_t) < 2 ^ LENGTH(8)" by simp
  then have "unat (i + 1) = unat i + unat (1 :: uint8_t)" by (simp only: unat_add_lem)
  then show ?thesis by simp
qed

termination adc1_2_isr_loop
proof (relation "measure (\<lambda>st. unat (n_conv st) div 2 - unat (isr_i st))")
  show "wf (measure (\<lambda>st. unat (n_conv st) div 2 - unat (isr_i st)))" by simp
next
  fix st :: state
  assume a: "unat (isr_i st) < unat (n_conv st) div 2"
  then show "(run
             [\<lambda>s. usart_print_int (v s ! unat (isr_i s) AND 0xFFFF) s,
              usart_print_string ''- '',
              \<lambda>s. usart_print_int (drop_bit 16 (v s ! unat (isr_i s))) s,
              \<lambda>s. s\<lparr>isr_i := isr_i s + 1\<rparr>] st, st)
       \<in> measure (\<lambda>st. unat (n_conv st) div 2 - unat (isr_i st))"
    by (simp add: run_def usart_print_int_emit usart_print_string_emit emit_bytes_def isr_i_step)
qed

declare adc1_2_isr_loop.simps [simp del]

definition adc1_2_isr :: "state \<Rightarrow> state" where
  "adc1_2_isr = run
     [\<lambda>s. s\<lparr>isr_i := 0\<rparr>,
      adc1_2_isr_loop,
      usart_print_string [CHR 0x0D, CHR 0x0A],
      dma_setup,
      usart_enable_tx_interrupt]"

text \<open>\<open>usart1_isr\<close>. The hardware decides what the handler reads: \<open>rxne\<close> and \<open>txe\<close> are
  the two status flags, \<open>rx\<close> is the value \<open>usart_recv\<close> returns.\<close>

definition usart1_isr :: "bool \<Rightarrow> uint16_t \<Rightarrow> bool \<Rightarrow> state \<Rightarrow> state" where
  "usart1_isr rxne rx txe st0 =
     (let st = log (Usart_get_flag_RXNE rxne) st0;
          st = (if rxne then put_receive (ucast rx) (log (Usart_recv rx) st) else st);
          st = log (Usart_get_flag_TXE txe) st
      in if txe then
           (let (d, b) = buffer_get (send_buffer st);
                st = log (Buffer_get Send) (st\<lparr>send_buffer := b, isr_data := d\<rparr>)
            in if isr_data st AND 0xFF00 > 0 then usart_disable_tx_interrupt st
               else usart_send (isr_data st AND 0xFF) st)
         else st)"

subsection \<open>main\<close>

definition init_send :: "nat \<Rightarrow> state \<Rightarrow> state" where
  "init_send n st = log (Buffer_init Send n) (st\<lparr>send_buffer := buffer_init (send_buffer st) n\<rparr>)"

definition init_receive :: "nat \<Rightarrow> state \<Rightarrow> state" where
  "init_receive n st =
     log (Buffer_init Receive n) (st\<lparr>receive_buffer := buffer_init (receive_buffer st) n\<rparr>)"

text \<open>Lines 80 to 88: the set-up calls, up to and including
  \<open>usart_enable_tx_interrupt(USART1)\<close>.\<close>

definition main_init :: "(nat \<Rightarrow> bool) \<Rightarrow> (nat \<Rightarrow> bool) \<Rightarrow> state \<Rightarrow> state option" where
  "main_init cal1 cal2 st0 = do {
     st \<leftarrow> adc_setup cal1 cal2 (run [clock_setup, gpio_setup, usart_setup, dma_setup] st0);
     Some (run [timer_setup, init_send BUFFER_SIZE, init_receive BUFFER_SIZE,
                usart_enable_tx_interrupt] st)
   }"

text \<open>Lines 91 to 119: the greeting, the two regular sequences, the clearing of \<open>v\<close> and the
  dump of the sequence registers. The local \<open>channel_array[16]\<close> is not initialised in the
  source; only entries written before are read, as long as \<open>n_conv/2\<close> is at most 16
  (\<open>n_conv\<close> is 8 and is never written).\<close>

definition main_report :: "state \<Rightarrow> state" where
  "main_report st0 =
     (let channel_array = replicate 16 0;
          st = usart_print_string (''Dual ADC 8 channels 0-7 DMA IRQ'' @ [CHR 0x0D, CHR 0x0A]) st0;
          channel_array = fold (\<lambda>i arr. arr[i := word_of_nat i])
                            [0..<unat (n_conv st) div 2] channel_array;
          st = adc_set_regular_sequence ADC1 (unat (n_conv st) div 2) channel_array st;
          channel_array = fold (\<lambda>i arr. arr[i := word_of_nat (i + unat (n_conv st) div 2)])
                            [0..<unat (n_conv st) div 2] channel_array;
          st = adc_set_regular_sequence ADC2 (unat (n_conv st) div 2) channel_array st;
          st = fold (\<lambda>i s. s\<lparr>v := (v s)[i := 0]\<rparr>) [0..<unat (n_conv st) div 2] st
      in run
          [usart_print_string ''ADC1_SQR3 fields '',
           \<lambda>s. usart_print_int (sqr3 (adc1_sq s) 0 mod 32) s,
           \<lambda>s. usart_print_int (drop_bit 5 (sqr3 (adc1_sq s) 0) mod 32) s,
           \<lambda>s. usart_print_int (drop_bit 10 (sqr3 (adc1_sq s) 0) mod 32) s,
           \<lambda>s. usart_print_int (drop_bit 15 (sqr3 (adc1_sq s) 0) mod 32) s,
           usart_print_string ([CHR 0x0D, CHR 0x0A] @ ''ADC2_SQR3 fields ''),
           \<lambda>s. usart_print_int (sqr3 (adc2_sq s) 0 mod 32) s,
           \<lambda>s. usart_print_int (drop_bit 5 (sqr3 (adc2_sq s) 0) mod 32) s,
           \<lambda>s. usart_print_int (drop_bit 10 (sqr3 (adc2_sq s) 0) mod 32) s,
           \<lambda>s. usart_print_int (drop_bit 15 (sqr3 (adc2_sq s) 0) mod 32) s,
           usart_print_string [CHR 0x0D, CHR 0x0A]] st)"

text \<open>\<open>while (!timer_get_flag(TIM2, TIM_SR_CC1IF));\<close> The oracle \<open>tim k\<close> is the value of the
  compare flag at the \<open>k\<close>-th poll since the loop of \<open>main\<close> was entered; the result is the
  number of the next poll and the state.\<close>

partial_function (option) wait_cc1if ::
  "(nat \<Rightarrow> bool) \<Rightarrow> nat \<Rightarrow> state \<Rightarrow> (nat \<times> state) option" where
  "wait_cc1if tim k st =
     (if tim k then Some (Suc k, log (Timer_get_flag True) st)
      else wait_cc1if tim (Suc k) (log (Timer_get_flag False) st))"

text \<open>\<open>for (i = 0; i < 500; i++) { wait; timer_clear_flag(TIM2, TIM_SR_CC1IF); }\<close>\<close>

function tick_loop :: "(nat \<Rightarrow> bool) \<Rightarrow> uint16_t \<Rightarrow> nat \<Rightarrow> state \<Rightarrow> (nat \<times> state) option" where
  "tick_loop tim i k st =
     (if i < 500
      then (case wait_cc1if tim k st of
              None \<Rightarrow> None
            | Some (k', st') \<Rightarrow> tick_loop tim (i + 1) k' (timer_clear_flag st'))
      else Some (k, st))"
  by pat_completeness auto

lemma tick_i_step: "(i :: uint16_t) < 500 \<Longrightarrow> unat (i + 1) = Suc (unat i)"
proof -
  assume "i < 500"
  then have "unat i < 500" by (simp add: word_less_nat_alt)
  then have "unat i + unat (1 :: uint16_t) < 2 ^ LENGTH(16)" by simp
  then have "unat (i + 1) = unat i + unat (1 :: uint16_t)" by (simp only: unat_add_lem)
  then show ?thesis by simp
qed

termination tick_loop
proof (relation "measure (\<lambda>(tim, i, k, st). 500 - unat i)")
  show "wf (measure (\<lambda>(tim, i, k, st). 500 - unat i))" by simp
next
  fix tim :: "nat \<Rightarrow> bool" and i :: uint16_t and k :: nat and st :: state
    and x2 :: "nat \<times> state" and x y
  assume "i < 500"
  then have "unat i < 500" "unat (i + 1) = Suc (unat i)"
    by (simp_all add: word_less_nat_alt tick_i_step)
  then show "((tim, i + 1, x, timer_clear_flag y), (tim, i, k, st))
      \<in> measure (\<lambda>(tim, i, k, st). 500 - unat i)"
    by simp
qed

declare tick_loop.simps [simp del]

text \<open>\<open>while (1) { ticks; adc_start_conversion_regular(ADC1); }\<close> never returns; the first
  argument is the number of passes of the loop that are observed.\<close>

fun main_loop :: "nat \<Rightarrow> (nat \<Rightarrow> bool) \<Rightarrow> nat \<Rightarrow> state \<Rightarrow> (nat \<times> state) option" where
  "main_loop 0 tim k st = Some (k, st)"
| "main_loop (Suc n) tim k st =
     (case tick_loop tim 0 k st of
        None \<Rightarrow> None
      | Some (k', st') \<Rightarrow> main_loop n tim k' (adc_start_conversion_regular ADC1 st'))"

definition main :: "nat \<Rightarrow> (nat \<Rightarrow> bool) \<Rightarrow> (nat \<Rightarrow> bool) \<Rightarrow> (nat \<Rightarrow> bool) \<Rightarrow> state
    \<Rightarrow> (nat \<times> state) option" where
  "main n cal1 cal2 tim st0 = do {
     st \<leftarrow> main_init cal1 cal2 st0;
     main_loop n tim 0 (main_report st)
   }"

subsection \<open>Reading the log\<close>

text \<open>The calls made between two states, and the bytes a list of calls puts into the send
  buffer.\<close>

definition new_calls :: "state \<Rightarrow> state \<Rightarrow> call list" where
  "new_calls st st' = drop (length (calls st)) (calls st')"

fun pushed :: "call list \<Rightarrow> uint8_t list" where
  "pushed [] = []"
| "pushed (Buffer_put Send x # cs) = x # pushed cs"
| "pushed (c # cs) = pushed cs"

text \<open>The bytes \<open>adc1_2_isr\<close> prints for one word of \<open>v\<close>, for the words its loop still has
  to visit, and for a whole call.\<close>

definition sample_bytes :: "uint32_t \<Rightarrow> uint8_t list" where
  "sample_bytes w = int_bytes (w AND 0xFFFF) @ map of_char ''- '' @ int_bytes (drop_bit 16 w)"

definition loop_bytes :: "state \<Rightarrow> uint8_t list" where
  "loop_bytes st = concat (map (\<lambda>j. sample_bytes (v st ! j))
                             [unat (isr_i st) ..< unat (n_conv st) div 2])"

definition isr_i_final :: "state \<Rightarrow> uint8_t" where
  "isr_i_final st = (if unat (isr_i st) < unat (n_conv st) div 2
                     then word_of_nat (unat (n_conv st) div 2) else isr_i st)"

definition isr_bytes :: "state \<Rightarrow> uint8_t list" where
  "isr_bytes st = concat (map sample_bytes (map (\<lambda>j. v st ! j) [0 ..< unat (n_conv st) div 2]))
                    @ map of_char [CHR 0x0D, CHR 0x0A]"

text \<open>The calls of \<open>dma_setup\<close>, in order.\<close>

definition dma_setup_calls :: "call list" where
  "dma_setup_calls =
     [Lib ''rcc_peripheral_enable_clock(&RCC_AHBENR, RCC_AHBENR_DMA1EN)'',
      Dma_channel_reset,
      Lib ''dma_set_priority(DMA1,DMA_CHANNEL1,DMA_CCR_PL_LOW)'',
      Lib ''dma_set_memory_size(DMA1,DMA_CHANNEL1,DMA_CCR_MSIZE_32BIT)'',
      Lib ''dma_set_peripheral_size(DMA1,DMA_CHANNEL1,DMA_CCR_PSIZE_32BIT)'',
      Lib ''dma_enable_memory_increment_mode(DMA1,DMA_CHANNEL1)'',
      Lib ''dma_set_read_from_peripheral(DMA1,DMA_CHANNEL1)'',
      Dma_set_peripheral_address Addr_ADC1_DR,
      Dma_set_memory_address Addr_v,
      Dma_set_number_of_data 64,
      Dma_enable_channel]"

text \<open>The values a list of calls writes to the transmit register.\<close>

fun sent :: "call list \<Rightarrow> uint16_t list" where
  "sent [] = []"
| "sent (Usart_send d # cs) = d # sent cs"
| "sent (c # cs) = sent cs"

subsection \<open>Reading the log of the main loop and of the calibration\<close>

text \<open>\<open>cadence n p cs\<close> reads the calls \<open>cs\<close> of the main loop: \<open>n\<close> counts the compare
  events that were observed and cleared since the last start command (or since the loop
  was entered), \<open>p\<close> says that the flag was read as set and not yet cleared. A poll is
  accepted only when no event is pending, a clear only when one is, and a start command
  only when nothing is pending and exactly 500 events were counted.\<close>

fun cadence :: "nat \<Rightarrow> bool \<Rightarrow> call list \<Rightarrow> bool" where
  "cadence n p [] = (\<not> p)"
| "cadence n p (c # cs) =
     (case c of
        Timer_get_flag b \<Rightarrow> \<not> p \<and> cadence n b cs
      | Timer_clear_flag \<Rightarrow> p \<and> cadence (Suc n) False cs
      | Adc_start_conversion_regular a \<Rightarrow> \<not> p \<and> n = 500 \<and> cadence 0 False cs
      | _ \<Rightarrow> cadence n p cs)"

text \<open>The values read from the compare flag in a list of calls, in order.\<close>

fun polls :: "call list \<Rightarrow> bool list" where
  "polls [] = []"
| "polls (Timer_get_flag b # cs) = b # polls cs"
| "polls (c # cs) = polls cs"

abbreviation (input) start_call :: call where
  "start_call \<equiv> Adc_start_conversion_regular ADC1"

text \<open>The polls of the calibration bits among a list of calls.\<close>

definition cal_polls :: "call list \<Rightarrow> call list" where
  "cal_polls = filter (\<lambda>c. case c of Adc_is_calibrating a b \<Rightarrow> True | _ \<Rightarrow> False)"

text \<open>\<open>extends st st' tr\<close>: the state \<open>st'\<close> is \<open>st\<close> with the calls \<open>tr\<close> added to the log
  and nothing else changed.\<close>

definition extends :: "state \<Rightarrow> state \<Rightarrow> call list \<Rightarrow> bool" where
  "extends st st' tr = (st' = st\<lparr>calls := calls st @ tr\<rparr>)"

subsection \<open>The start-up scenario\<close>

text \<open>The interrupt line of USART1 as the hardware drives it: the handler is entered when
  a byte has been received (\<open>usart_setup\<close> enables the receive interrupt and nothing
  disables it) or when the transmit register is empty and the transmit interrupt is
  enabled; otherwise nothing happens.\<close>

definition usart1_irq :: "bool \<Rightarrow> uint16_t \<Rightarrow> bool \<Rightarrow> state \<Rightarrow> state" where
  "usart1_irq rxne rx txe st =
     (if rxne \<or> (txe \<and> txeie st) then usart1_isr rxne rx txe st else st)"

text \<open>The greeting of \<open>main\<close> and the rest of what it prints before its loop when
  \<open>n_conv\<close> is 8.\<close>

definition banner :: string where
  "banner = ''Dual ADC 8 channels 0-7 DMA IRQ'' @ [CHR 0x0D, CHR 0x0A]"

definition report_rest :: string where
  "report_rest = ''ADC1_SQR3 fields 0 1 2 3 '' @ [CHR 0x0D, CHR 0x0A]
                 @ ''ADC2_SQR3 fields 4 5 6 7 '' @ [CHR 0x0D, CHR 0x0A]"

text \<open>The state after lines 80 to 88 of \<open>main\<close> when both calibrations end at the first
  poll, and the state after a transmit-empty interrupt served right then and the rest of
  the start-up (lines 91 to 119).\<close>

definition startup_state :: state where
  "startup_state = the (main_init bot bot init_state)"

definition window_state :: state where
  "window_state = main_report (usart1_isr False 0 True startup_state)"

text \<open>Calls that put nothing into the send buffer and write nothing to the transmit
  register.\<close>

definition quiet :: "call list \<Rightarrow> bool" where
  "quiet tr = (pushed tr = [] \<and> sent tr = [])"

subsection \<open>Decimal text, as the specification reads it\<close>

text \<open>The specification's reading of decimal text, used to state the round trip: a digit
  is one of the bytes \<open>0x30\<close> to \<open>0x39\<close>; a digit string is read most significant digit
  first; a decimal text is a digit string, or \<open>-\<close> followed by a digit string.\<close>

definition is_digit :: "uint8_t \<Rightarrow> bool" where
  "is_digit b = (0x30 \<le> b \<and> b \<le> 0x39)"

fun digits_value :: "uint8_t list \<Rightarrow> nat \<Rightarrow> nat option" where
  "digits_value [] acc = Some acc"
| "digits_value (d # ds) acc =
     (if is_digit d then digits_value ds (10 * acc + (unat d - 48)) else None)"

definition parse_decimal :: "uint8_t list \<Rightarrow> int option" where
  "parse_decimal bs =
     (case bs of
        [] \<Rightarrow> None
      | b # rest \<Rightarrow>
          if b = 0x2D
          then (if rest = [] then None else map_option (\<lambda>n. - int n) (digits_value rest 0))
          else map_option int (digits_value bs 0))"

text \<open>The decimal digits of a natural number, least significant first (none for 0).\<close>

fun lsd_digits :: "nat \<Rightarrow> string" where
  "lsd_digits n = (if n = 0 then [] else (''0123456789'' ! (n mod 10)) # lsd_digits (n div 10))"

declare lsd_digits.simps [simp del]

subsection \<open>A concrete state\<close>

text \<open>The state of the end-to-end scenario of the specification: after start-up, with the
  four sample words of the scenario at the head of \<open>v\<close>, the channel sequences programmed
  and the send buffer initialised and empty.\<close>

definition scenario_state :: state where
  "scenario_state = init_state
     \<lparr>v := [0x00010002, 0x00030004, 0x00050006, 0x00070008] @ replicate 124 0,
      send_buffer := buffer_init (send_buffer init_state) BUFFER_SIZE,
      adc1_sq := [0, 1, 2, 3],
      adc2_sq := [4, 5, 6, 7]\<rparr>"

section \<open>Properties\<close>

subsection \<open>The handlers in closed form\<close>

lemma isr_body_emit:
  "run [\<lambda>s. usart_print_int (v s ! unat (isr_i s) AND 0xFFFF) s,
        usart_print_string ''- '',
        \<lambda>s. usart_print_int (drop_bit 16 (v s ! unat (isr_i s))) s,
        \<lambda>s. s\<lparr>isr_i := isr_i s + 1\<rparr>] st
   = (emit_bytes (sample_bytes (v st ! unat (isr_i st))) st)\<lparr>isr_i := isr_i st + 1\<rparr>"
  by (simp add: run_def usart_print_int_emit usart_print_string_emit sample_bytes_def
      c_string_def emit_bytes_def)

lemma adc1_2_isr_loop_emit:
  "adc1_2_isr_loop st = (emit_bytes (loop_bytes st) st)\<lparr>isr_i := isr_i_final st\<rparr>"
proof (induction st rule: adc1_2_isr_loop.induct)
  case (1 st)
  show ?case
  proof (cases "unat (isr_i st) < unat (n_conv st) div 2")
    case False
    then show ?thesis
      by (simp add: adc1_2_isr_loop.simps [of st] loop_bytes_def isr_i_final_def emit_bytes_Nil)
  next
    case True
    define s1 where
      "s1 = (emit_bytes (sample_bytes (v st ! unat (isr_i st))) st)\<lparr>isr_i := isr_i st + 1\<rparr>"
    have step: "unat (isr_i st + 1) = Suc (unat (isr_i st))"
      using True by (rule isr_i_step)
    have f: "v s1 = v st" "n_conv s1 = n_conv st" "isr_i s1 = isr_i st + 1"
      by (simp_all add: s1_def emit_bytes_def)
    have "adc1_2_isr_loop st = adc1_2_isr_loop s1"
      using True by (simp add: adc1_2_isr_loop.simps [of st] isr_body_emit s1_def)
    also have "\<dots> = (emit_bytes (loop_bytes s1) s1)\<lparr>isr_i := isr_i_final s1\<rparr>"
      using "1.IH" [OF True] by (simp add: isr_body_emit s1_def)
    finally have a:
      "adc1_2_isr_loop st = (emit_bytes (loop_bytes s1) s1)\<lparr>isr_i := isr_i_final s1\<rparr>" .
    have lb: "loop_bytes st = sample_bytes (v st ! unat (isr_i st)) @ loop_bytes s1"
      using True by (simp add: loop_bytes_def f step upt_conv_Cons)
    have fin: "isr_i_final s1 = isr_i_final st"
    proof (cases "Suc (unat (isr_i st)) < unat (n_conv st) div 2")
      case True
      then show ?thesis using \<open>unat (isr_i st) < unat (n_conv st) div 2\<close>
        by (simp add: isr_i_final_def f step)
    next
      case False
      with True have "unat (n_conv st) div 2 = Suc (unat (isr_i st))" by simp
      then have "unat (n_conv st) div 2 = unat (isr_i st + 1)" using step by simp
      then have "(word_of_nat (unat (n_conv st) div 2) :: uint8_t) = isr_i st + 1"
        by simp
      then show ?thesis using True False by (simp add: isr_i_final_def f step)
    qed
    show ?thesis
      unfolding a lb fin by (simp add: s1_def emit_bytes_def)
  qed
qed

lemma dma_setup_eq:
  "dma_setup st = st\<lparr>dma_cpar := Addr_ADC1_DR, dma_cmar := Addr_v, dma_cndtr := 64,
                     dma_en := True, calls := calls st @ dma_setup_calls\<rparr>"
  by (simp add: dma_setup_def run_def lib_def log_def dma_channel_reset_def
      dma_set_peripheral_address_def dma_set_memory_address_def dma_set_number_of_data_def
      dma_enable_channel_def dma_setup_calls_def)

lemma adc1_2_isr_eq:
  "adc1_2_isr st =
     st\<lparr>isr_i := word_of_nat (unat (n_conv st) div 2),
        send_buffer := fold (\<lambda>x b. buffer_put b x) (isr_bytes st) (send_buffer st),
        txeie := True,
        dma_cpar := Addr_ADC1_DR, dma_cmar := Addr_v, dma_cndtr := 64, dma_en := True,
        calls := calls st @ map (Buffer_put Send) (isr_bytes st) @ dma_setup_calls
                   @ [Usart_enable_tx_interrupt]\<rparr>"
proof -
  have "isr_i_final (st\<lparr>isr_i := 0\<rparr>) = word_of_nat (unat (n_conv st) div 2)"
    by (simp add: isr_i_final_def)
  moreover have "loop_bytes (st\<lparr>isr_i := 0\<rparr>)
      = concat (map sample_bytes (map (\<lambda>j. v st ! j) [0 ..< unat (n_conv st) div 2]))"
    by (simp add: loop_bytes_def comp_def)
  ultimately show ?thesis
    by (simp add: adc1_2_isr_def run_def adc1_2_isr_loop_emit usart_print_string_emit
        dma_setup_eq usart_enable_tx_interrupt_def log_def emit_bytes_def isr_bytes_def
        c_string_def)
qed

lemma pushed_append: "pushed (xs @ ys) = pushed xs @ pushed ys"
  by (induction xs rule: pushed.induct) simp_all

lemma pushed_puts: "pushed (map (Buffer_put Send) bs) = bs"
  by (induction bs) simp_all

lemma pushed_dma_setup_calls: "pushed dma_setup_calls = []"
  by (simp add: dma_setup_calls_def)

lemma new_calls_adc1_2_isr:
  "new_calls st (adc1_2_isr st)
     = map (Buffer_put Send) (isr_bytes st) @ dma_setup_calls @ [Usart_enable_tx_interrupt]"
  by (simp add: new_calls_def adc1_2_isr_eq)

lemma pushed_adc1_2_isr: "pushed (new_calls st (adc1_2_isr st)) = isr_bytes st"
  by (simp add: new_calls_adc1_2_isr pushed_append pushed_puts pushed_dma_setup_calls)

subsection \<open>Re-arming the DMA channel\<close>

text \<open>
  C6. Every call of \<open>adc1_2_isr\<close> ends with the whole of \<open>dma_setup\<close> followed by
  \<open>usart_enable_tx_interrupt\<close>: after the bytes put into the send buffer, the calls it
  makes are exactly those of \<open>dma_setup\<close> (the channel reset first, then the programming
  of the peripheral address, of the memory address, the start of \<open>v\<close>, and of the count 64,
  then the enabling of the channel), and then the enabling of the transmit interrupt. On
  return the channel registers hold these values, the channel is enabled and the transmit
  interrupt is enabled.
\<close>

theorem adc1_2_isr_rearms:
  "new_calls st (adc1_2_isr st)
     = map (Buffer_put Send) (pushed (new_calls st (adc1_2_isr st)))
       @ new_calls st (dma_setup st) @ [Usart_enable_tx_interrupt]
   \<and> new_calls st (dma_setup st) = dma_setup_calls
   \<and> dma_cpar (adc1_2_isr st) = Addr_ADC1_DR
   \<and> dma_cmar (adc1_2_isr st) = Addr_v
   \<and> dma_cndtr (adc1_2_isr st) = 64
   \<and> dma_en (adc1_2_isr st)
   \<and> txeie (adc1_2_isr st)"
proof -
  have d: "new_calls st (dma_setup st) = dma_setup_calls"
    by (simp add: new_calls_def dma_setup_eq)
  have "new_calls st (adc1_2_isr st)
      = map (Buffer_put Send) (pushed (new_calls st (adc1_2_isr st)))
        @ new_calls st (dma_setup st) @ [Usart_enable_tx_interrupt]"
    unfolding pushed_adc1_2_isr d by (rule new_calls_adc1_2_isr)
  moreover have "dma_cpar (adc1_2_isr st) = Addr_ADC1_DR" "dma_cmar (adc1_2_isr st) = Addr_v"
    "dma_cndtr (adc1_2_isr st) = 64" "dma_en (adc1_2_isr st)" "txeie (adc1_2_isr st)"
    by (simp_all add: adc1_2_isr_eq)
  ultimately show ?thesis using d by simp
qed

subsection \<open>Decimal printing\<close>

lemma print_int_digits_lsd:
  "0 \<le> sint val \<Longrightarrow> print_int_digits val buffer = buffer @ lsd_digits (nat (sint val))"
proof (induction val buffer rule: print_int_digits.induct)
  case (1 val buffer)
  show ?case
  proof (cases "0 < sint val")
    case False
    with "1.prems" have "sint val = 0" by simp
    then show ?thesis
      by (simp add: print_int_digits.simps [of val] lsd_digits.simps [of 0])
  next
    case True
    have d: "sint (c_div val 10) = sint val div 10" and m: "sint (c_mod val 10) = sint val mod 10"
      using True by (simp_all add: sint_c_div_10 sint_c_mod_10)
    have nn: "0 \<le> sint (c_div val 10)" using True d by simp
    have n0: "nat (sint val) \<noteq> 0" using True by simp
    have "print_int_digits val buffer
        = print_int_digits (c_div val 10) (buffer @ [''0123456789'' ! nat (sint (c_mod val 10))])"
      using True by (simp add: print_int_digits.simps [of val])
    also have "\<dots> = (buffer @ [''0123456789'' ! nat (sint (c_mod val 10))])
                       @ lsd_digits (nat (sint (c_div val 10)))"
      using "1.IH" [OF True nn] .
    also have "\<dots> = buffer @ lsd_digits (nat (sint val))"
      using True n0 by (simp add: lsd_digits.simps [of "nat (sint val)"] d m nat_div_distrib nat_mod_distrib)
    finally show ?thesis .
  qed
qed

lemma digit_char: "k < 10 \<Longrightarrow> (of_char (''0123456789'' ! k) :: uint8_t) = word_of_nat (48 + k)"
proof -
  assume "k < 10"
  then have "k \<in> {0,1,2,3,4,5,6,7,8,9}" by auto
  then show ?thesis by auto
qed

lemma is_digit_char: "k < 10 \<Longrightarrow> is_digit (word_of_nat (48 + k))"
proof -
  assume "k < 10"
  then have "k \<in> {0,1,2,3,4,5,6,7,8,9}" by auto
  then show ?thesis by (auto simp: is_digit_def)
qed

lemma unat_digit_char: "k < 10 \<Longrightarrow> unat (word_of_nat (48 + k) :: uint8_t) - 48 = k"
proof -
  assume "k < 10"
  then have "k \<in> {0,1,2,3,4,5,6,7,8,9}" by auto
  then show ?thesis by auto
qed

lemma digits_value_snoc:
  "digits_value (bs @ [d]) acc =
     (case digits_value bs acc of
        None \<Rightarrow> None
      | Some a \<Rightarrow> if is_digit d then Some (10 * a + (unat d - 48)) else None)"
  by (induction bs arbitrary: acc) simp_all

lemma digits_value_lsd:
  "digits_value (map of_char (rev (lsd_digits n))) 0 = Some n"
proof (induction n rule: lsd_digits.induct)
  case (1 n)
  show ?case
  proof (cases "n = 0")
    case True
    then show ?thesis by (simp add: lsd_digits.simps [of 0])
  next
    case False
    have k: "n mod 10 < 10" by simp
    show ?thesis
      using False "1.IH" [OF False]
      by (simp add: lsd_digits.simps [of n] digits_value_snoc digit_char [OF k]
          is_digit_char [OF k] unat_digit_char [OF k] del: of_nat_add)
  qed
qed

lemma all_digits_lsd: "list_all is_digit (map of_char (rev (lsd_digits n)))"
proof (induction n rule: lsd_digits.induct)
  case (1 n)
  show ?case
  proof (cases "n = 0")
    case True
    then show ?thesis by (simp add: lsd_digits.simps [of 0])
  next
    case False
    have k: "n mod 10 < 10" by simp
    show ?thesis
      using False "1.IH" [OF False]
      by (simp add: lsd_digits.simps [of n] digit_char [OF k] is_digit_char [OF k] del: of_nat_add)
  qed
qed

lemma lsd_nonempty: "0 < n \<Longrightarrow> lsd_digits n \<noteq> []"
  by (simp add: lsd_digits.simps [of n])

lemma sint_scast_16_32: "sint (scast (x :: 16 word) :: c_int) = sint x"
  by (rule sint_up_scast) (simp add: is_up)

lemma sint_16_bounds: "- 32768 \<le> sint (x :: 16 word)" "sint (x :: 16 word) < 32768"
  using sint_ge [of x] sint_lt [of x] by simp_all

lemma sint_neg_32: "- 2147483648 < sint (val :: c_int) \<Longrightarrow> sint (val * (- 1)) = - sint val"
proof -
  assume a: "- 2147483648 < sint val"
  have b: "sint val < 2147483648" using sint_lt [of val] by simp
  have "sint (- val) = signed_take_bit 31 (- sint val)" by (simp add: sint_word_minus)
  also have "\<dots> = - sint val" using a b by (simp add: signed_take_bit_int_eq_self)
  finally show ?thesis by simp
qed

lemma int_digits_lsd:
  "0 \<le> sint val \<Longrightarrow>
   int_digits val = (if sint val = 0 then ''0'' else lsd_digits (nat (sint val)))"
proof -
  assume a: "0 \<le> sint val"
  have "(val = 0) = (sint val = 0)" by (simp add: signed_eq_0_iff)
  then show ?thesis using a by (simp add: int_digits_def print_int_digits_lsd)
qed

lemma int_digits_value:
  "0 \<le> sint val \<Longrightarrow> digits_value (map of_char (rev (int_digits val))) 0 = Some (nat (sint val))"
  by (simp add: int_digits_lsd digits_value_lsd is_digit_def)

lemma int_digits_all: "0 \<le> sint val \<Longrightarrow> list_all is_digit (map of_char (rev (int_digits val)))"
  by (simp add: int_digits_lsd all_digits_lsd is_digit_def)

lemma int_digits_nonempty: "0 \<le> sint val \<Longrightarrow> int_digits val \<noteq> []"
  by (simp add: int_digits_lsd lsd_nonempty)

lemma pushed_usart_print_int: "pushed (new_calls st (usart_print_int val st)) = int_bytes val"
  by (simp add: usart_print_int_emit emit_bytes_def new_calls_def pushed_puts)

lemma parse_decimal_digits:
  "ds \<noteq> [] \<Longrightarrow> list_all is_digit ds \<Longrightarrow> parse_decimal ds = map_option int (digits_value ds 0)"
  by (cases ds) (auto simp: parse_decimal_def is_digit_def)

lemma parse_decimal_minus:
  "ds \<noteq> [] \<Longrightarrow> parse_decimal (0x2D # ds) = map_option (\<lambda>n. - int n) (digits_value ds 0)"
  by (simp add: parse_decimal_def)

text \<open>
  C3. For every signed 16-bit value, passed to \<open>usart_print_int\<close> as an \<open>int\<close>, the bytes
  put into the send buffer are a \<open>-\<close> exactly when the value is negative, then a non-empty
  string of digits whose value, read most significant digit first, is the magnitude, then
  one space; reading the text before the space as a decimal number gives the value back.
  The value 0 is printed as \<open>0\<close> and a space, the value -1 as \<open>-1\<close> and a space.
\<close>

theorem usart_print_int_roundtrip:
  fixes x :: "16 word"
  shows
  "(\<exists>ds. pushed (new_calls st (usart_print_int (scast x) st))
          = (if sint x < 0 then [of_char CHR ''-''] else []) @ ds @ [of_char CHR '' '']
        \<and> ds \<noteq> [] \<and> list_all is_digit ds
        \<and> digits_value ds 0 = Some (nat \<bar>sint x\<bar>)
        \<and> parse_decimal ((if sint x < 0 then [of_char CHR ''-''] else []) @ ds) = Some (sint x))
   \<and> pushed (new_calls st (usart_print_int 0 st)) = map of_char ''0 ''
   \<and> pushed (new_calls st (usart_print_int (- 1) st)) = map of_char ''-1 ''"
proof -
  define val :: c_int where "val = scast x"
  define mag :: c_int where "mag = (if sint val < 0 then val * (- 1) else val)"
  define ds :: "uint8_t list" where "ds = map of_char (rev (int_digits mag))"
  have sv: "sint val = sint x" by (simp add: val_def sint_scast_16_32)
  have lo: "- 2147483648 < sint val" using sint_16_bounds [of x] sv by simp
  have sm: "sint mag = \<bar>sint x\<bar>"
    using sint_neg_32 [OF lo] sv by (simp add: mag_def)
  then have nn: "0 \<le> sint mag" by simp
  have 1: "pushed (new_calls st (usart_print_int (scast x) st))
          = (if sint x < 0 then [of_char CHR ''-''] else []) @ ds @ [of_char CHR '' '']"
    using sv by (simp add: pushed_usart_print_int int_bytes_def ds_def mag_def val_def)
  have 2: "ds \<noteq> []" using int_digits_nonempty [OF nn] by (simp add: ds_def)
  have 3: "list_all is_digit ds" using int_digits_all [OF nn] by (simp add: ds_def)
  have 4: "digits_value ds 0 = Some (nat \<bar>sint x\<bar>)"
    using int_digits_value [OF nn] sm by (simp add: ds_def)
  have 5: "parse_decimal ((if sint x < 0 then [of_char CHR ''-''] else []) @ ds) = Some (sint x)"
  proof (cases "sint x < 0")
    case True
    then show ?thesis using parse_decimal_minus [OF 2] 4 by simp
  next
    case False
    then show ?thesis using parse_decimal_digits [OF 2 3] 4 by simp
  qed
  have z: "int_digits 0 = ''0''" by (simp add: int_digits_def)
  have 6: "pushed (new_calls st (usart_print_int 0 st)) = map of_char ''0 ''"
    by (simp add: pushed_usart_print_int int_bytes_def z)
  have "sint (1 :: c_int) = 1" by simp
  then have o: "int_digits 1 = ''1''"
    by (simp add: int_digits_lsd lsd_digits.simps [of "Suc 0"] lsd_digits.simps [of 0])
  have 7: "pushed (new_calls st (usart_print_int (- 1) st)) = map of_char ''-1 ''"
    by (simp add: pushed_usart_print_int int_bytes_def o)
  from 1 2 3 4 5 6 7 show ?thesis by blast
qed

subsection \<open>The ring buffer as a queue\<close>

lemma mod_twice: "a < 2 * c \<Longrightarrow> (a :: nat) mod c = (if a < c then a else a - c)"
  by (simp add: mod_if)

lemma buffer_used_alt:
  "buffer_wf b \<Longrightarrow>
   buffer_used b = (if head b \<le> tail b then tail b - head b else tail b + capacity b - head b)"
  by (auto simp: buffer_wf_def buffer_used_def mod_twice)

lemma buffer_put_props:
  assumes wf: "buffer_wf b" and fr: "0 < buffer_free b"
  shows "buffer_wf (buffer_put b x)"
    and "buffer_used (buffer_put b x) = Suc (buffer_used b)"
    and "buffer_free (buffer_put b x) = buffer_free b - 1"
    and "buffer_contents (buffer_put b x) = buffer_contents b @ [x]"
proof -
  define c h t where "c = capacity b" and "h = head b" and "t = tail b"
  have c0: "0 < c" and hc: "h < c" and tc: "t < c" and len: "c \<le> length (slots b)"
    using wf by (simp_all add: buffer_wf_def c_def h_def t_def)
  have u: "buffer_used b = (if h \<le> t then t - h else t + c - h)"
    using buffer_used_alt [OF wf] by (simp add: c_def h_def t_def)
  have ulim: "Suc (buffer_used b) < c"
    using fr by (simp add: buffer_free_def c_def)
  have nf: "\<not> buffer_full b"
    using ulim u hc tc by (auto simp: buffer_full_def c_def [symmetric] h_def [symmetric] t_def [symmetric] mod_twice split: if_splits)
  define b' where "b' = buffer_put b x"
  have b': "b' = b\<lparr>slots := (slots b)[t := x], tail := (t + 1) mod c\<rparr>"
    using nf by (simp add: b'_def buffer_put_def c_def t_def)
  have t': "tail b' = (if t + 1 < c then t + 1 else 0)" using tc by (auto simp: b' mod_twice)
  have f: "head b' = h" "capacity b' = c" "slots b' = (slots b)[t := x]"
    by (simp_all add: b' h_def c_def)
  show wf': "buffer_wf (buffer_put b x)"
    using c0 hc len t' f by (simp add: buffer_wf_def b'_def [symmetric])
  have u': "buffer_used b' = Suc (buffer_used b)"
    using buffer_used_alt [OF wf' [folded b'_def]] u ulim hc tc t' f by (auto split: if_splits)
  then show "buffer_used (buffer_put b x) = Suc (buffer_used b)" by (simp add: b'_def)
  show "buffer_free (buffer_put b x) = buffer_free b - 1"
    using u' f by (simp add: buffer_free_def b'_def [symmetric] c_def)
  have old: "(slots b)[t := x] ! ((h + k) mod c) = slots b ! ((h + k) mod c)"
    if "k < buffer_used b" for k
  proof -
    have "(h + k) mod c \<noteq> t"
      using that u ulim hc tc by (auto simp: mod_twice split: if_splits)
    then show ?thesis by simp
  qed
  have last: "(slots b)[t := x] ! ((h + buffer_used b) mod c) = x"
  proof -
    have "(h + buffer_used b) mod c = t"
      using u ulim hc tc by (auto simp: mod_twice split: if_splits)
    then show ?thesis using tc len by simp
  qed
  have "buffer_contents b' = map (\<lambda>k. (slots b)[t := x] ! ((h + k) mod c)) [0..<Suc (buffer_used b)]"
    by (simp add: buffer_contents_def u' f)
  also have "\<dots> = map (\<lambda>k. slots b ! ((h + k) mod c)) [0..<buffer_used b] @ [x]"
    using old last by simp
  finally show "buffer_contents (buffer_put b x) = buffer_contents b @ [x]"
    by (simp add: b'_def buffer_contents_def c_def h_def)
qed

lemma buffer_puts_props:
  "buffer_wf b \<Longrightarrow> length xs \<le> buffer_free b \<Longrightarrow>
   buffer_wf (fold (\<lambda>x b. buffer_put b x) xs b)
   \<and> buffer_free (fold (\<lambda>x b. buffer_put b x) xs b) = buffer_free b - length xs
   \<and> buffer_contents (fold (\<lambda>x b. buffer_put b x) xs b) = buffer_contents b @ xs"
proof (induction xs arbitrary: b)
  case Nil
  then show ?case by simp
next
  case (Cons x xs)
  then have fr: "0 < buffer_free b" by simp
  note p = buffer_put_props [OF Cons.prems(1) fr, of x]
  have "length xs \<le> buffer_free (buffer_put b x)" using Cons.prems(2) p(3) by simp
  from Cons.IH [OF p(1) this] show ?case using p by simp
qed

subsection \<open>Decoding the sample words\<close>

lemma uint_low_half: "uint (w AND 0xFFFF :: uint32_t) = uint w mod 65536"
proof -
  have m: "(0xFFFF :: uint32_t) = mask 16" by (simp add: mask_eq_exp_minus_1)
  have "w AND 0xFFFF = take_bit 16 w" unfolding m by (simp add: take_bit_eq_mask)
  then show ?thesis by (simp add: take_bit_eq_mod uint_mod)
qed

lemma sint_small: "uint (w :: uint32_t) < 2147483648 \<Longrightarrow> sint w = uint w"
proof -
  assume "uint w < 2147483648"
  moreover have "- 2147483648 \<le> uint w" using uint_ge_0 [of w] by linarith
  ultimately have "signed_take_bit 31 (uint w) = uint w"
    by (intro signed_take_bit_int_eq_self) simp_all
  then show ?thesis by (simp add: sint_uint)
qed

lemma sint_low_half: "sint (w AND 0xFFFF :: uint32_t) = uint w mod 65536"
proof -
  have "uint (w AND 0xFFFF) < 2147483648" by (simp add: uint_low_half)
  then show ?thesis by (simp add: sint_small uint_low_half)
qed

lemma uint_high_half: "uint (drop_bit 16 w :: uint32_t) = uint w div 65536"
  by (simp add: drop_bit_eq_div uint_div)

lemma uint_high_half_less: "uint (drop_bit 16 w :: uint32_t) < 65536"
proof -
  have "uint w < 2 ^ 32" using uint_lt2p [of w] by simp
  then show ?thesis by (simp add: uint_high_half)
qed

lemma high_half_mask: "drop_bit 16 (w :: uint32_t) AND 0xFFFF = drop_bit 16 w"
proof (rule word_uint_eqI)
  show "uint (drop_bit 16 w AND 0xFFFF) = uint (drop_bit 16 w)"
    using uint_high_half_less [of w] by (simp add: uint_low_half)
qed

lemma sint_high_half: "sint (drop_bit 16 w :: uint32_t) = uint w div 65536"
proof -
  have "uint (drop_bit 16 w) < 2147483648" using uint_high_half_less [of w] by simp
  then show ?thesis by (simp add: sint_small uint_high_half)
qed

lemma parse_int_bytes:
  "0 \<le> sint val \<Longrightarrow> parse_decimal (butlast (int_bytes val)) = Some (sint val)"
proof -
  assume nn: "0 \<le> sint val"
  have ne: "map of_char (rev (int_digits val)) \<noteq> ([] :: uint8_t list)"
    using int_digits_nonempty [OF nn] by simp
  have "butlast (int_bytes val) = map of_char (rev (int_digits val))"
    using nn by (simp add: int_bytes_def butlast_append)
  then show ?thesis
    using parse_decimal_digits [OF ne int_digits_all [OF nn]] int_digits_value [OF nn] nn
    by simp
qed

text \<open>
  C4. The bytes one call of \<open>adc1_2_isr\<close> puts into the send buffer are, for each of the
  first \<open>n_conv/2\<close> words \<open>w\<close> of \<open>v\<close> in order, what \<open>usart_print_int\<close> puts for
  \<open>w & 0xFFFF\<close>, then the two bytes \<open>- \<close>, then what \<open>usart_print_int\<close> puts for
  \<open>(w >> 16) & 0xFFFF\<close>; the line ends with CR LF. Read back as decimal text, the first
  number of a word is its low half and the second its high half.
\<close>

theorem adc1_2_isr_decodes_words:
  "pushed (new_calls st (adc1_2_isr st))
     = concat (map (\<lambda>w. pushed (new_calls s1 (usart_print_int (w AND 0xFFFF) s1))
                         @ map of_char ''- ''
                         @ pushed (new_calls s2 (usart_print_int (drop_bit 16 w AND 0xFFFF) s2)))
                   (map (\<lambda>j. v st ! j) [0 ..< unat (n_conv st) div 2]))
       @ map of_char [CHR 0x0D, CHR 0x0A]
   \<and> parse_decimal (butlast (pushed (new_calls s1 (usart_print_int (w AND 0xFFFF) s1))))
       = Some (uint w mod 65536)
   \<and> parse_decimal (butlast (pushed (new_calls s2 (usart_print_int (drop_bit 16 w AND 0xFFFF) s2))))
       = Some (uint w div 65536)"
proof -
  have lo: "parse_decimal (butlast (int_bytes (w AND 0xFFFF))) = Some (uint w mod 65536)"
    using parse_int_bytes [of "w AND 0xFFFF"] by (simp add: sint_low_half)
  have "0 \<le> sint (drop_bit 16 w)"
    unfolding sint_high_half by (simp add: pos_imp_zdiv_nonneg_iff)
  then have hi: "parse_decimal (butlast (int_bytes (drop_bit 16 w))) = Some (uint w div 65536)"
    using parse_int_bytes [of "drop_bit 16 w"] by (simp add: sint_high_half)
  have "isr_bytes st
     = concat (map (\<lambda>w. int_bytes (w AND 0xFFFF) @ map of_char ''- ''
                          @ int_bytes (drop_bit 16 w AND 0xFFFF))
                   (map (\<lambda>j. v st ! j) [0 ..< unat (n_conv st) div 2]))
       @ map of_char [CHR 0x0D, CHR 0x0A]"
    unfolding high_half_mask isr_bytes_def sample_bytes_def [abs_def] ..
  then show ?thesis
    using lo hi unfolding pushed_adc1_2_isr pushed_usart_print_int high_half_mask by simp
qed

subsection \<open>The end-to-end scenario\<close>

lemma nth_take_list: "take n xs = ys \<Longrightarrow> j < n \<Longrightarrow> xs ! j = ys ! j"
  by (metis nth_take)

lemma int_bytes_eval:
  "int_bytes 1 = map of_char ''1 ''" "int_bytes 2 = map of_char ''2 ''"
  "int_bytes 3 = map of_char ''3 ''" "int_bytes 4 = map of_char ''4 ''"
  "int_bytes 5 = map of_char ''5 ''" "int_bytes 6 = map of_char ''6 ''"
  "int_bytes 7 = map of_char ''7 ''" "int_bytes 8 = map of_char ''8 ''"
  by code_simp+

lemma upt_4: "[0..<4] = [0, 1, 2, 3]"
  by (simp add: upt_rec)

text \<open>
  C1. With \<open>n_conv = 8\<close>, the sequence 0,1,2,3 on ADC1 and 4,5,6,7 on ADC2, the four
  words \<open>0x00010002, 0x00030004, 0x00050006, 0x00070008\<close> at the head of \<open>v\<close> and room
  in the send buffer for the whole line, one call of \<open>adc1_2_isr\<close> puts exactly the bytes
  of \<open>2 - 1 4 - 3 6 - 5 8 - 7 \<close> followed by CR LF, and they are appended to what the
  send buffer holds.
\<close>

theorem adc1_2_isr_scenario:
  assumes "n_conv st = 8"
    and "take 4 (v st) = [0x00010002, 0x00030004, 0x00050006, 0x00070008]"
    and "adc1_sq st = [0, 1, 2, 3]" and "adc2_sq st = [4, 5, 6, 7]"
    and "buffer_wf (send_buffer st)"
    and "length (''2 - 1 4 - 3 6 - 5 8 - 7 '' @ [CHR 0x0D, CHR 0x0A]) \<le> buffer_free (send_buffer st)"
  shows "pushed (new_calls st (adc1_2_isr st))
           = map of_char (''2 - 1 4 - 3 6 - 5 8 - 7 '' @ [CHR 0x0D, CHR 0x0A])
         \<and> buffer_contents (send_buffer (adc1_2_isr st))
           = buffer_contents (send_buffer st)
             @ map of_char (''2 - 1 4 - 3 6 - 5 8 - 7 '' @ [CHR 0x0D, CHR 0x0A])"
proof -
  note t = nth_take_list [OF assms(2)]
  have w: "v st ! 0 = 0x00010002" "v st ! Suc 0 = 0x00030004" "v st ! 2 = 0x00050006"
    "v st ! 3 = 0x00070008"
    using t [of 0] t [of 1] t [of 2] t [of 3] by simp_all
  have s: "sample_bytes 0x00010002 = map of_char ''2 - 1 ''"
    "sample_bytes 0x00030004 = map of_char ''4 - 3 ''"
    "sample_bytes 0x00050006 = map of_char ''6 - 5 ''"
    "sample_bytes 0x00070008 = map of_char ''8 - 7 ''"
    by (simp_all add: sample_bytes_def int_bytes_eval)
  have b: "isr_bytes st = map of_char (''2 - 1 4 - 3 6 - 5 8 - 7 '' @ [CHR 0x0D, CHR 0x0A])"
    by (simp add: isr_bytes_def assms(1) upt_4 w s)
  have 1: "pushed (new_calls st (adc1_2_isr st))
           = map of_char (''2 - 1 4 - 3 6 - 5 8 - 7 '' @ [CHR 0x0D, CHR 0x0A])"
    by (simp only: pushed_adc1_2_isr b)
  have "length (isr_bytes st) \<le> buffer_free (send_buffer st)"
    using assms(6) unfolding b by simp
  from buffer_puts_props [OF assms(5) this]
  have "buffer_contents (send_buffer (adc1_2_isr st))
           = buffer_contents (send_buffer st) @ isr_bytes st"
    by (simp add: adc1_2_isr_eq)
  then show ?thesis using 1 unfolding b by simp
qed

theorem adc1_2_isr_scenario_witness:
  "n_conv scenario_state = 8
   \<and> take 4 (v scenario_state) = [0x00010002, 0x00030004, 0x00050006, 0x00070008]
   \<and> adc1_sq scenario_state = [0, 1, 2, 3] \<and> adc2_sq scenario_state = [4, 5, 6, 7]
   \<and> buffer_wf (send_buffer scenario_state)
   \<and> buffer_free (send_buffer scenario_state) = 127
   \<and> buffer_contents (send_buffer scenario_state) = []
   \<and> pushed (new_calls scenario_state (adc1_2_isr scenario_state))
       = map of_char (''2 - 1 4 - 3 6 - 5 8 - 7 '' @ [CHR 0x0D, CHR 0x0A])
   \<and> buffer_contents (send_buffer (adc1_2_isr scenario_state))
       = map of_char (''2 - 1 4 - 3 6 - 5 8 - 7 '' @ [CHR 0x0D, CHR 0x0A])"
proof -
  have h: "n_conv scenario_state = 8"
    "take 4 (v scenario_state) = [0x00010002, 0x00030004, 0x00050006, 0x00070008]"
    "adc1_sq scenario_state = [0, 1, 2, 3]" "adc2_sq scenario_state = [4, 5, 6, 7]"
    "buffer_wf (send_buffer scenario_state)"
    "buffer_free (send_buffer scenario_state) = 127"
    "buffer_contents (send_buffer scenario_state) = []"
    by (simp_all add: scenario_state_def init_state_def buffer_init_def buffer_wf_def
        buffer_free_def buffer_used_def buffer_contents_def BUFFER_SIZE_def)
  have "length (''2 - 1 4 - 3 6 - 5 8 - 7 '' @ [CHR 0x0D, CHR 0x0A])
          \<le> buffer_free (send_buffer scenario_state)"
    unfolding h by simp
  from adc1_2_isr_scenario [OF h(1) h(2) h(3) h(4) h(5) this] h show ?thesis
    by simp
qed

subsection \<open>No state carried between calls\<close>

text \<open>
  C9. Two calls of \<open>adc1_2_isr\<close> from states that agree on \<open>n_conv\<close>, on the first
  \<open>n_conv/2\<close> words of \<open>v\<close> and on the send buffer make the same calls, put the same
  bytes and leave the same send buffer, whatever the two states hold elsewhere; in
  particular the values of the static \<open>i\<close> of \<open>adc1_2_isr\<close> and of the static \<open>data\<close>
  of \<open>usart1_isr\<close> at entry do not change what the call does.
\<close>

theorem adc1_2_isr_deterministic:
  assumes "n_conv s1 = n_conv s2"
    and "take (unat (n_conv s1) div 2) (v s1) = take (unat (n_conv s1) div 2) (v s2)"
    and "send_buffer s1 = send_buffer s2"
  shows "pushed (new_calls s1 (adc1_2_isr s1)) = pushed (new_calls s2 (adc1_2_isr s2))
       \<and> new_calls s1 (adc1_2_isr s1) = new_calls s2 (adc1_2_isr s2)
       \<and> send_buffer (adc1_2_isr s1) = send_buffer (adc1_2_isr s2)
       \<and> adc1_2_isr (s1\<lparr>isr_i := i, isr_data := d\<rparr>) = (adc1_2_isr s1)\<lparr>isr_data := d\<rparr>"
proof -
  have "v s1 ! j = v s2 ! j" if "j < unat (n_conv s1) div 2" for j
    using nth_take [OF that, of "v s1"] nth_take [OF that, of "v s2"] assms(2) by simp
  then have m: "map (\<lambda>j. v s1 ! j) [0 ..< unat (n_conv s1) div 2]
           = map (\<lambda>j. v s2 ! j) [0 ..< unat (n_conv s1) div 2]"
    by simp
  have b: "isr_bytes s1 = isr_bytes s2"
    by (simp only: isr_bytes_def m assms(1) [symmetric])
  have c: "isr_bytes (s1\<lparr>isr_i := i, isr_data := d\<rparr>) = isr_bytes s1"
    by (simp add: isr_bytes_def)
  show ?thesis
    using assms(3) b by (simp add: new_calls_adc1_2_isr pushed_adc1_2_isr) (simp add: adc1_2_isr_eq c)
qed

theorem adc1_2_isr_deterministic_witness:
  "n_conv scenario_state = n_conv (scenario_state\<lparr>isr_i := 200, v := take 4 (v scenario_state) @ replicate 124 0xFFFFFFFF, txeie := True\<rparr>)
   \<and> pushed (new_calls (scenario_state\<lparr>isr_i := 200, v := take 4 (v scenario_state) @ replicate 124 0xFFFFFFFF, txeie := True\<rparr>)
        (adc1_2_isr (scenario_state\<lparr>isr_i := 200, v := take 4 (v scenario_state) @ replicate 124 0xFFFFFFFF, txeie := True\<rparr>)))
     = pushed (new_calls scenario_state (adc1_2_isr scenario_state))"
proof -
  define s2 where "s2 = scenario_state\<lparr>isr_i := 200, v := take 4 (v scenario_state) @ replicate 124 0xFFFFFFFF, txeie := True\<rparr>"
  have h: "n_conv scenario_state = n_conv s2"
    "take (unat (n_conv scenario_state) div 2) (v scenario_state)
      = take (unat (n_conv scenario_state) div 2) (v s2)"
    "send_buffer scenario_state = send_buffer s2"
    by (simp_all add: s2_def scenario_state_def init_state_def)
  from adc1_2_isr_deterministic [OF h] h(1) show ?thesis
    unfolding s2_def by simp
qed

subsection \<open>The size of the sample store\<close>

lemma length_v_fold_clear:
  "length (v (fold (\<lambda>i s. s\<lparr>v := (v s)[i := 0]\<rparr>) is st)) = length (v st)"
  by (induction "is" arbitrary: st) simp_all

lemma v_adc_set_regular_sequence: "v (adc_set_regular_sequence a len ch st) = v st"
  by (cases a) (simp_all add: adc_set_regular_sequence_def log_def)

lemma length_v_main_report: "length (v (main_report st)) = length (v st)"
  by (simp add: main_report_def Let_def run_def usart_print_string_emit usart_print_int_emit
      emit_bytes_def length_v_fold_clear v_adc_set_regular_sequence)

lemma v_usart1_isr: "v (usart1_isr rxne rx txe st) = v st"
  by (simp add: usart1_isr_def Let_def log_def put_receive_def usart_disable_tx_interrupt_def
      usart_send_def split: prod.split)

text \<open>
  C2, as stated, fails: the array \<open>v\<close> has 128 elements, the DMA channel is programmed
  for 64 data items.
\<close>

theorem sample_store_length_counterexample:
  "length (v init_state) = 128
   \<and> unat (dma_cndtr (dma_setup init_state)) = 64
   \<and> length (v init_state) \<noteq> unat (dma_cndtr (dma_setup init_state))"
  by (simp add: dma_setup_eq) (simp add: init_state_def)

text \<open>
  C2, amended. The sample store \<open>v\<close> is an array of 128 32-bit words whose length no
  function of the program changes; \<open>dma_setup\<close> programs the channel for 64 data items
  from the start of \<open>v\<close>, so a burst fits into \<open>v\<close> and fills at most its first half.
\<close>

theorem sample_store_holds_burst:
  "length (v init_state) = 128
   \<and> dma_cndtr (dma_setup st) = 64
   \<and> dma_cmar (dma_setup st) = Addr_v
   \<and> unat (dma_cndtr (dma_setup st)) \<le> length (v init_state)
   \<and> length (v (dma_setup st)) = length (v st)
   \<and> length (v (main_report st)) = length (v st)
   \<and> length (v (adc1_2_isr st)) = length (v st)
   \<and> length (v (usart1_isr rxne rx txe st)) = length (v st)"
  by (simp add: dma_setup_eq length_v_main_report v_usart1_isr adc1_2_isr_eq)
     (simp add: init_state_def)

subsection \<open>The transmit side of the serial handler\<close>

lemma sent_append: "sent (xs @ ys) = sent xs @ sent ys"
  by (induction xs rule: sent.induct) simp_all

lemma byte_high_bits: "(ucast (x :: uint8_t) :: uint16_t) AND 0xFF00 = 0"
proof -
  have m: "(0xFF00 :: uint16_t) = push_bit 8 (mask 8)" by (simp add: mask_eq_exp_minus_1)
  show ?thesis
    unfolding m
    by (rule bit_word_eqI)
       (auto simp: bit_and_iff bit_push_bit_iff bit_mask_iff bit_ucast_iff dest: bit_imp_le_length)
qed

lemma byte_low_bits: "(ucast (x :: uint8_t) :: uint16_t) AND 0xFF = ucast x"
proof -
  have m: "(0xFF :: uint16_t) = mask 8" by (simp add: mask_eq_exp_minus_1)
  show ?thesis
    unfolding m
    by (rule bit_word_eqI)
       (auto simp: bit_and_iff bit_mask_iff bit_ucast_iff dest: bit_imp_le_length)
qed

lemma buffer_get_empty:
  "head b = tail b \<Longrightarrow> buffer_get b = (BUFFER_EMPTY, b)"
  by (simp add: buffer_get_def)

lemma buffer_get_nonempty:
  "head b \<noteq> tail b \<Longrightarrow>
   buffer_get b = (ucast (slots b ! head b), b\<lparr>head := (head b + 1) mod capacity b\<rparr>)"
  by (simp add: buffer_get_def)

lemma usart1_isr_txe:
  "usart1_isr rxne rx True st =
     (let s1 = (if rxne then put_receive (ucast rx) (log (Usart_recv rx) (log (Usart_get_flag_RXNE rxne) st))
                else log (Usart_get_flag_RXNE rxne) st);
          s2 = (log (Usart_get_flag_TXE True) s1)
                 \<lparr>send_buffer := snd (buffer_get (send_buffer st)),
                  isr_data := fst (buffer_get (send_buffer st)),
                  calls := calls s1 @ [Usart_get_flag_TXE True, Buffer_get Send]\<rparr>
      in if fst (buffer_get (send_buffer st)) AND 0xFF00 > 0
         then s2\<lparr>txeie := False, calls := calls s2 @ [Usart_disable_tx_interrupt]\<rparr>
         else s2\<lparr>calls := calls s2 @ [Usart_send (fst (buffer_get (send_buffer st)) AND 0xFF)]\<rparr>)"
  by (simp add: usart1_isr_def Let_def split_beta log_def put_receive_def
      usart_disable_tx_interrupt_def usart_send_def)

text \<open>
  C5. When \<open>usart1_isr\<close> finds the transmit register empty it pops the send buffer once.
  If the popped value has one of its high eight bits set, the transmit interrupt is
  disabled and nothing is written to the transmit register; otherwise the low eight bits of
  the popped value are written to the transmit register and the interrupt enable is left as
  it was. With the ring buffer of the specification the first case is the empty buffer,
  which returns the empty marker, and the second the buffer that holds a byte.
\<close>

theorem usart1_isr_transmit:
  "send_buffer (usart1_isr rxne rx True st) = snd (buffer_get (send_buffer st))
   \<and> isr_data (usart1_isr rxne rx True st) = fst (buffer_get (send_buffer st))
   \<and> count_list (new_calls st (usart1_isr rxne rx True st)) (Buffer_get Send) = 1
   \<and> (fst (buffer_get (send_buffer st)) AND 0xFF00 > 0 \<longrightarrow>
        \<not> txeie (usart1_isr rxne rx True st)
        \<and> sent (new_calls st (usart1_isr rxne rx True st)) = []
        \<and> last (new_calls st (usart1_isr rxne rx True st)) = Usart_disable_tx_interrupt)
   \<and> (\<not> fst (buffer_get (send_buffer st)) AND 0xFF00 > 0 \<longrightarrow>
        txeie (usart1_isr rxne rx True st) = txeie st
        \<and> sent (new_calls st (usart1_isr rxne rx True st))
            = [fst (buffer_get (send_buffer st)) AND 0xFF]
        \<and> last (new_calls st (usart1_isr rxne rx True st))
            = Usart_send (fst (buffer_get (send_buffer st)) AND 0xFF)
        \<and> Usart_disable_tx_interrupt \<notin> set (new_calls st (usart1_isr rxne rx True st)))
   \<and> (head (send_buffer st) = tail (send_buffer st) \<longrightarrow>
        fst (buffer_get (send_buffer st)) = BUFFER_EMPTY
        \<and> fst (buffer_get (send_buffer st)) AND 0xFF00 > 0
        \<and> snd (buffer_get (send_buffer st)) = send_buffer st)
   \<and> (head (send_buffer st) \<noteq> tail (send_buffer st) \<longrightarrow>
        \<not> fst (buffer_get (send_buffer st)) AND 0xFF00 > 0
        \<and> fst (buffer_get (send_buffer st)) AND 0xFF
            = ucast (slots (send_buffer st) ! head (send_buffer st)))"
proof -
  define d where "d = fst (buffer_get (send_buffer st))"
  define pre where "pre = (if rxne
      then [Usart_get_flag_RXNE True, Usart_recv rx, Buffer_put Receive (ucast rx)]
      else [Usart_get_flag_RXNE False]) @ [Usart_get_flag_TXE True, Buffer_get Send]"
  have n: "new_calls st (usart1_isr rxne rx True st)
      = pre @ [if d AND 0xFF00 > 0 then Usart_disable_tx_interrupt else Usart_send (d AND 0xFF)]"
    by (simp add: usart1_isr_txe new_calls_def Let_def log_def put_receive_def pre_def d_def)
  have p: "sent pre = []" "count_list pre (Buffer_get Send) = 1"
    "Usart_disable_tx_interrupt \<notin> set pre"
    by (simp_all add: pre_def)
  have 1: "send_buffer (usart1_isr rxne rx True st) = snd (buffer_get (send_buffer st))"
    "isr_data (usart1_isr rxne rx True st) = d"
    by (simp_all add: usart1_isr_txe Let_def d_def)
  have 2: "count_list (new_calls st (usart1_isr rxne rx True st)) (Buffer_get Send) = 1"
    unfolding n using p by simp
  have 3: "\<not> txeie (usart1_isr rxne rx True st)
        \<and> sent (new_calls st (usart1_isr rxne rx True st)) = []
        \<and> last (new_calls st (usart1_isr rxne rx True st)) = Usart_disable_tx_interrupt"
    if "d AND 0xFF00 > 0"
    unfolding n using p that by (simp add: sent_append) (simp add: usart1_isr_txe Let_def d_def)
  have 4: "txeie (usart1_isr rxne rx True st) = txeie st
        \<and> sent (new_calls st (usart1_isr rxne rx True st)) = [d AND 0xFF]
        \<and> last (new_calls st (usart1_isr rxne rx True st)) = Usart_send (d AND 0xFF)
        \<and> Usart_disable_tx_interrupt \<notin> set (new_calls st (usart1_isr rxne rx True st))"
    if "\<not> d AND 0xFF00 > 0"
    unfolding n using p that
    by (simp add: sent_append)
       (simp add: usart1_isr_txe Let_def d_def log_def put_receive_def)
  have 5: "d = BUFFER_EMPTY \<and> d AND 0xFF00 > 0 \<and> snd (buffer_get (send_buffer st)) = send_buffer st"
    if "head (send_buffer st) = tail (send_buffer st)"
    using that by (simp add: d_def buffer_get_empty BUFFER_EMPTY_def)
  have 6: "\<not> d AND 0xFF00 > 0
        \<and> d AND 0xFF = ucast (slots (send_buffer st) ! head (send_buffer st))"
    if "head (send_buffer st) \<noteq> tail (send_buffer st)"
    using that by (simp add: d_def buffer_get_nonempty byte_high_bits byte_low_bits)
  from 1 2 3 4 5 6 show ?thesis unfolding d_def by blast
qed

theorem usart1_isr_transmit_witness:
  "head (send_buffer (scenario_state\<lparr>txeie := True\<rparr>))
     = tail (send_buffer (scenario_state\<lparr>txeie := True\<rparr>))
   \<and> fst (buffer_get (send_buffer (scenario_state\<lparr>txeie := True\<rparr>))) AND 0xFF00 > 0
   \<and> \<not> txeie (usart1_isr False 0 True (scenario_state\<lparr>txeie := True\<rparr>))
   \<and> sent (new_calls (scenario_state\<lparr>txeie := True\<rparr>)
             (usart1_isr False 0 True (scenario_state\<lparr>txeie := True\<rparr>))) = []
   \<and> head (send_buffer (put_send 0x41 (scenario_state\<lparr>txeie := True\<rparr>)))
     \<noteq> tail (send_buffer (put_send 0x41 (scenario_state\<lparr>txeie := True\<rparr>)))
   \<and> \<not> fst (buffer_get (send_buffer (put_send 0x41 (scenario_state\<lparr>txeie := True\<rparr>))))
          AND 0xFF00 > 0
   \<and> txeie (usart1_isr False 0 True (put_send 0x41 (scenario_state\<lparr>txeie := True\<rparr>)))
   \<and> sent (new_calls (put_send 0x41 (scenario_state\<lparr>txeie := True\<rparr>))
             (usart1_isr False 0 True (put_send 0x41 (scenario_state\<lparr>txeie := True\<rparr>))))
       = [0x41]"
proof -
  define s0 where "s0 = scenario_state\<lparr>txeie := True\<rparr>"
  define s1 where "s1 = put_send 0x41 s0"
  have e: "head (send_buffer s0) = tail (send_buffer s0)"
    by (simp add: s0_def scenario_state_def init_state_def buffer_init_def)
  have b1: "send_buffer s1 = \<lparr>slots = replicate 131 0, head = 0, tail = 0, capacity = 128\<rparr>
                \<lparr>slots := (replicate 131 0)[0 := 0x41], tail := 1\<rparr>"
    by (simp add: s1_def s0_def put_send_def log_def scenario_state_def init_state_def
        buffer_init_def buffer_put_def buffer_full_def BUFFER_SIZE_def)
  have ne: "head (send_buffer s1) \<noteq> tail (send_buffer s1)"
    by (simp add: b1)
  have x: "slots (send_buffer s1) ! head (send_buffer s1) = 0x41"
    by (simp add: b1)
  have t: "txeie s1" by (simp add: s1_def s0_def put_send_def log_def)
  note a = usart1_isr_transmit [of False 0 s0]
  note b = usart1_isr_transmit [of False 0 s1]
  have hi: "fst (buffer_get (send_buffer s0)) AND 0xFF00 > 0" using a e by blast
  have a': "\<not> txeie (usart1_isr False 0 True s0)"
    "sent (new_calls s0 (usart1_isr False 0 True s0)) = []"
    using a hi by blast+
  have lo: "\<not> fst (buffer_get (send_buffer s1)) AND 0xFF00 > 0"
    and byte: "fst (buffer_get (send_buffer s1)) AND 0xFF = 0x41"
    using b ne x by simp_all
  have b': "txeie (usart1_isr False 0 True s1) = txeie s1"
    "sent (new_calls s1 (usart1_isr False 0 True s1)) = [fst (buffer_get (send_buffer s1)) AND 0xFF]"
    using b lo by blast+
  show ?thesis
    unfolding s1_def [symmetric] s0_def [symmetric]
    using e hi a' ne lo b' byte t by simp
qed

subsection \<open>The busy waits\<close>

lemma replicate_diff: "Suc k \<le> j \<Longrightarrow> replicate (j - k) x = x # replicate (j - Suc k) x"
proof -
  assume "Suc k \<le> j"
  then have "j - k = Suc (j - Suc k)" by simp
  then show ?thesis by (simp only: replicate_Suc)
qed

lemma wait_cc1if_Some:
  "wait_cc1if tim k st = Some r \<Longrightarrow>
   \<exists>j. k \<le> j \<and> tim j \<and> (\<forall>i. k \<le> i \<and> i < j \<longrightarrow> \<not> tim i)
        \<and> r = (Suc j, st\<lparr>calls := calls st @ replicate (j - k) (Timer_get_flag False)
                                    @ [Timer_get_flag True]\<rparr>)"
proof (induction tim k st r rule: wait_cc1if.raw_induct [rotated 1, consumes 1])
  case (1 wait tim k st r)
  show ?case
  proof (cases "tim k")
    case True
    with "1"(2) have "r = (Suc k, log (Timer_get_flag True) st)" by simp
    with True have "k \<le> k \<and> tim k \<and> (\<forall>i. k \<le> i \<and> i < k \<longrightarrow> \<not> tim i)
        \<and> r = (Suc k, st\<lparr>calls := calls st @ replicate (k - k) (Timer_get_flag False)
                                    @ [Timer_get_flag True]\<rparr>)"
      by (auto simp: log_def)
    then show ?thesis by iprover
  next
    case False
    with "1"(2) have "wait tim (Suc k) (log (Timer_get_flag False) st) = Some r" by simp
    from "1"(1) [OF this] obtain j where jj: "Suc k \<le> j \<and> tim j
      \<and> (\<forall>i. Suc k \<le> i \<and> i < j \<longrightarrow> \<not> tim i)
      \<and> r = (Suc j, (log (Timer_get_flag False) st)
             \<lparr>calls := calls (log (Timer_get_flag False) st)
                        @ replicate (j - Suc k) (Timer_get_flag False) @ [Timer_get_flag True]\<rparr>)"
      ..
    note j = jj [THEN conjunct1] jj [THEN conjunct2, THEN conjunct1]
      jj [THEN conjunct2, THEN conjunct2, THEN conjunct1]
      jj [THEN conjunct2, THEN conjunct2, THEN conjunct2]
    have rng: "\<forall>i. k \<le> i \<and> i < j \<longrightarrow> \<not> tim i"
    proof (intro allI impI)
      fix i assume a: "k \<le> i \<and> i < j"
      show "\<not> tim i"
      proof (cases "i = k")
        case True
        then show ?thesis using False by simp
      next
        case False
        with a have "Suc k \<le> i \<and> i < j" by simp
        then show ?thesis using j(3) by blast
      qed
    qed
    have rep: "replicate (j - k) (Timer_get_flag False)
        = Timer_get_flag False # replicate (j - Suc k) (Timer_get_flag False)"
      using j(1) by (rule replicate_diff)
    have "r = (Suc j, st\<lparr>calls := calls st @ replicate (j - k) (Timer_get_flag False)
                                    @ [Timer_get_flag True]\<rparr>)"
      unfolding rep j(4) by (simp add: log_def)
    with rng j(1,2) have "k \<le> j \<and> tim j \<and> (\<forall>i. k \<le> i \<and> i < j \<longrightarrow> \<not> tim i)
        \<and> r = (Suc j, st\<lparr>calls := calls st @ replicate (j - k) (Timer_get_flag False)
                                    @ [Timer_get_flag True]\<rparr>)"
      by simp
    then show ?thesis by iprover
  qed
qed

lemma wait_cc1if_terminates:
  "tim j \<Longrightarrow> k \<le> j \<Longrightarrow> (\<forall>i. k \<le> i \<and> i < j \<longrightarrow> \<not> tim i) \<Longrightarrow>
   wait_cc1if tim k st
     = Some (Suc j, st\<lparr>calls := calls st @ replicate (j - k) (Timer_get_flag False)
                                  @ [Timer_get_flag True]\<rparr>)"
proof (induction "j - k" arbitrary: k st)
  case 0
  then have "k = j" by simp
  with "0.prems" show ?case by (subst wait_cc1if.simps) (simp add: log_def)
next
  case (Suc d)
  then have nk: "\<not> tim k" and le: "Suc k \<le> j" and d: "d = j - Suc k" by auto
  have "\<forall>i. Suc k \<le> i \<and> i < j \<longrightarrow> \<not> tim i" using Suc.prems(3) by auto
  from Suc.hyps(1) [OF d Suc.prems(1) le this, of "log (Timer_get_flag False) st"]
  have "wait_cc1if tim (Suc k) (log (Timer_get_flag False) st)
     = Some (Suc j, st\<lparr>calls := calls st @ replicate (j - k) (Timer_get_flag False)
                                  @ [Timer_get_flag True]\<rparr>)"
    using replicate_diff [OF le, of "Timer_get_flag False"] by (simp add: log_def)
  then show ?case using nk by (subst wait_cc1if.simps) simp
qed

lemma wait_cc1if_None: "(\<forall>j. k \<le> j \<longrightarrow> \<not> tim j) \<Longrightarrow> wait_cc1if tim k st = None"
proof (rule ccontr)
  assume a: "\<forall>j. k \<le> j \<longrightarrow> \<not> tim j" and "wait_cc1if tim k st \<noteq> None"
  then obtain r where "wait_cc1if tim k st = Some r" by auto
  from wait_cc1if_Some [OF this] obtain j where "k \<le> j \<and> tim j
      \<and> (\<forall>i. k \<le> i \<and> i < j \<longrightarrow> \<not> tim i)
      \<and> r = (Suc j, st\<lparr>calls := calls st @ replicate (j - k) (Timer_get_flag False)
                                    @ [Timer_get_flag True]\<rparr>)" ..
  then have "k \<le> j" "tim j" by simp_all
  with a show False by simp
qed

lemma first_from:
  "(k :: nat) \<le> j0 \<Longrightarrow> P j0 \<Longrightarrow> \<exists>j. k \<le> j \<and> P j \<and> (\<forall>i. k \<le> i \<and> i < j \<longrightarrow> \<not> P i)"
proof -
  assume j0: "k \<le> j0" "P j0"
  define j where "j = (LEAST j. k \<le> j \<and> P j)"
  from j0 have "k \<le> j0 \<and> P j0" by simp
  then have 1: "k \<le> j \<and> P j" unfolding j_def by (rule LeastI)
  have 2: "\<forall>i. k \<le> i \<and> i < j \<longrightarrow> \<not> P i"
    using not_less_Least [of _ "\<lambda>j. k \<le> j \<and> P j"] unfolding j_def by blast
  from 1 2 show ?thesis by iprover
qed

lemma wait_cc1if_live: "k \<le> j0 \<Longrightarrow> tim j0 \<Longrightarrow> \<exists>r. wait_cc1if tim k st = Some r"
proof -
  assume "k \<le> j0" "tim j0"
  from first_from [of k j0 tim, OF this] obtain j
    where "k \<le> j \<and> tim j \<and> (\<forall>i. k \<le> i \<and> i < j \<longrightarrow> \<not> tim i)" ..
  then have "tim j" "k \<le> j" "\<forall>i. k \<le> i \<and> i < j \<longrightarrow> \<not> tim i" by simp_all
  from wait_cc1if_terminates [OF this, of st] show ?thesis by iprover
qed

lemma wait_calibration_Some:
  "wait_calibration a cal k st = Some r \<Longrightarrow>
   \<exists>j. k \<le> j \<and> \<not> cal j \<and> (\<forall>i. k \<le> i \<and> i < j \<longrightarrow> cal i)
        \<and> r = st\<lparr>calls := calls st @ replicate (j - k) (Adc_is_calibrating a True)
                            @ [Adc_is_calibrating a False]\<rparr>"
proof (induction a cal k st r rule: wait_calibration.raw_induct [rotated 1, consumes 1])
  case (1 wait a cal k st r)
  show ?case
  proof (cases "cal k")
    case False
    with "1"(2) have "r = log (Adc_is_calibrating a False) st" by simp
    with False have "k \<le> k \<and> \<not> cal k \<and> (\<forall>i. k \<le> i \<and> i < k \<longrightarrow> cal i)
        \<and> r = st\<lparr>calls := calls st @ replicate (k - k) (Adc_is_calibrating a True)
                            @ [Adc_is_calibrating a False]\<rparr>"
      by (auto simp: log_def)
    then show ?thesis by iprover
  next
    case True
    with "1"(2) have "wait a cal (Suc k) (log (Adc_is_calibrating a True) st) = Some r" by simp
    from "1"(1) [OF this] obtain j where jj: "Suc k \<le> j \<and> \<not> cal j
      \<and> (\<forall>i. Suc k \<le> i \<and> i < j \<longrightarrow> cal i)
      \<and> r = (log (Adc_is_calibrating a True) st)
             \<lparr>calls := calls (log (Adc_is_calibrating a True) st)
                        @ replicate (j - Suc k) (Adc_is_calibrating a True)
                        @ [Adc_is_calibrating a False]\<rparr>"
      ..
    note j = jj [THEN conjunct1] jj [THEN conjunct2, THEN conjunct1]
      jj [THEN conjunct2, THEN conjunct2, THEN conjunct1]
      jj [THEN conjunct2, THEN conjunct2, THEN conjunct2]
    have rng: "\<forall>i. k \<le> i \<and> i < j \<longrightarrow> cal i"
    proof (intro allI impI)
      fix i assume b: "k \<le> i \<and> i < j"
      show "cal i"
      proof (cases "i = k")
        case True
        then show ?thesis using \<open>cal k\<close> by simp
      next
        case False
        with b have "Suc k \<le> i \<and> i < j" by simp
        then show ?thesis using j(3) by blast
      qed
    qed
    have rep: "replicate (j - k) (Adc_is_calibrating a True)
        = Adc_is_calibrating a True # replicate (j - Suc k) (Adc_is_calibrating a True)"
      using j(1) by (rule replicate_diff)
    have "r = st\<lparr>calls := calls st @ replicate (j - k) (Adc_is_calibrating a True)
                            @ [Adc_is_calibrating a False]\<rparr>"
      unfolding rep j(4) by (simp add: log_def)
    with rng j(1,2) have "k \<le> j \<and> \<not> cal j \<and> (\<forall>i. k \<le> i \<and> i < j \<longrightarrow> cal i)
        \<and> r = st\<lparr>calls := calls st @ replicate (j - k) (Adc_is_calibrating a True)
                            @ [Adc_is_calibrating a False]\<rparr>"
      by simp
    then show ?thesis by iprover
  qed
qed

lemma wait_calibration_terminates:
  "\<not> cal j \<Longrightarrow> k \<le> j \<Longrightarrow> (\<forall>i. k \<le> i \<and> i < j \<longrightarrow> cal i) \<Longrightarrow>
   wait_calibration a cal k st
     = Some (st\<lparr>calls := calls st @ replicate (j - k) (Adc_is_calibrating a True)
                           @ [Adc_is_calibrating a False]\<rparr>)"
proof (induction "j - k" arbitrary: k st)
  case 0
  then have "k = j" by simp
  with "0.prems" show ?case by (subst wait_calibration.simps) (simp add: log_def)
next
  case (Suc d)
  then have ck: "cal k" and le: "Suc k \<le> j" and d: "d = j - Suc k" by auto
  have "\<forall>i. Suc k \<le> i \<and> i < j \<longrightarrow> cal i" using Suc.prems(3) by auto
  from Suc.hyps(1) [OF d Suc.prems(1) le this, of "log (Adc_is_calibrating a True) st"]
  have "wait_calibration a cal (Suc k) (log (Adc_is_calibrating a True) st)
     = Some (st\<lparr>calls := calls st @ replicate (j - k) (Adc_is_calibrating a True)
                           @ [Adc_is_calibrating a False]\<rparr>)"
    using replicate_diff [OF le, of "Adc_is_calibrating a True"] by (simp add: log_def)
  then show ?case using ck by (subst wait_calibration.simps) simp
qed

lemma wait_calibration_None:
  "(\<forall>j. k \<le> j \<longrightarrow> cal j) \<Longrightarrow> wait_calibration a cal k st = None"
proof (rule ccontr)
  assume c: "\<forall>j. k \<le> j \<longrightarrow> cal j" and "wait_calibration a cal k st \<noteq> None"
  then obtain r where "wait_calibration a cal k st = Some r" by auto
  from wait_calibration_Some [OF this] obtain j where "k \<le> j \<and> \<not> cal j
      \<and> (\<forall>i. k \<le> i \<and> i < j \<longrightarrow> cal i)
      \<and> r = st\<lparr>calls := calls st @ replicate (j - k) (Adc_is_calibrating a True)
                            @ [Adc_is_calibrating a False]\<rparr>" ..
  then have "k \<le> j" "\<not> cal j" by simp_all
  with c show False by simp
qed

lemma wait_calibration_live:
  "k \<le> j0 \<Longrightarrow> \<not> cal j0 \<Longrightarrow> \<exists>r. wait_calibration a cal k st = Some r"
proof -
  assume "k \<le> j0" "\<not> cal j0"
  from first_from [of k j0 "\<lambda>j. \<not> cal j", OF this] obtain j
    where "k \<le> j \<and> \<not> cal j \<and> (\<forall>i. k \<le> i \<and> i < j \<longrightarrow> \<not> \<not> cal i)" ..
  then have "\<not> cal j" "k \<le> j" "\<forall>i. k \<le> i \<and> i < j \<longrightarrow> cal i" by simp_all
  from wait_calibration_terminates [OF this, of a st] show ?thesis by iprover
qed

lemma extends_refl: "extends st st []"
  by (simp add: extends_def)

lemma extends_trans: "extends s1 s2 t1 \<Longrightarrow> extends s2 s3 t2 \<Longrightarrow> extends s1 s3 (t1 @ t2)"
  by (simp add: extends_def)

lemma extends_new_calls: "extends st st' tr \<Longrightarrow> new_calls st st' = tr"
  by (simp add: extends_def new_calls_def)

lemma extends_log: "extends st (log c st) [c]"
  by (simp add: extends_def log_def)

lemma extends_txeie: "extends st st' tr \<Longrightarrow> txeie st' = txeie st"
  by (simp add: extends_def)

lemma extends_send_buffer: "extends st st' tr \<Longrightarrow> send_buffer st' = send_buffer st"
  by (simp add: extends_def)

lemma cadence_polls:
  "cadence n False (replicate m (Timer_get_flag False) @ Timer_get_flag True # Timer_clear_flag # cs)
     = cadence (Suc n) False cs"
  by (induction m) simp_all

lemma count_polls:
  "count_list (replicate m (Timer_get_flag False) @ [Timer_get_flag True, Timer_clear_flag]) start_call = 0"
  by (induction m) simp_all

lemma tick_loop_Some:
  "tick_loop tim i k st = Some (k', st') \<Longrightarrow>
   \<exists>tr. extends st st' tr
      \<and> (\<forall>n cs. cadence n False (tr @ cs) = cadence (n + (500 - unat i)) False cs)
      \<and> count_list tr start_call = 0"
proof (induction tim i k st arbitrary: k' st' rule: tick_loop.induct)
  case (1 tim i k st)
  show ?case
  proof (cases "i < 500")
    case False
    with "1.prems" have "st' = st" by (simp add: tick_loop.simps [of tim i])
    moreover from False have "500 - unat i = 0" by (simp add: word_less_nat_alt)
    ultimately have "extends st st' []
      \<and> (\<forall>n cs. cadence n False ([] @ cs) = cadence (n + (500 - unat i)) False cs)
      \<and> count_list [] start_call = 0"
      by (simp add: extends_refl)
    then show ?thesis by iprover
  next
    case True
    from "1.prems" True obtain r where w: "wait_cc1if tim k st = Some r"
      by (cases "wait_cc1if tim k st") (simp_all add: tick_loop.simps [of tim i])
    obtain k1 s1 where r: "r = (k1, s1)" by (cases r)
    from "1.prems" True w r
    have rest: "tick_loop tim (i + 1) k1 (timer_clear_flag s1) = Some (k', st')"
      by (simp add: tick_loop.simps [of tim i])
    from wait_cc1if_Some [OF w] obtain j where "k \<le> j \<and> tim j
        \<and> (\<forall>i. k \<le> i \<and> i < j \<longrightarrow> \<not> tim i)
        \<and> r = (Suc j, st\<lparr>calls := calls st @ replicate (j - k) (Timer_get_flag False)
                                    @ [Timer_get_flag True]\<rparr>)" ..
    then have "s1 = st\<lparr>calls := calls st @ replicate (j - k) (Timer_get_flag False)
                                    @ [Timer_get_flag True]\<rparr>"
      using r by simp
    then have e1: "extends st (timer_clear_flag s1)
        (replicate (j - k) (Timer_get_flag False) @ [Timer_get_flag True, Timer_clear_flag])"
      by (simp add: extends_def timer_clear_flag_def log_def)
    from "1.IH" [OF True w r [symmetric] rest] obtain tr2 where t2:
      "extends (timer_clear_flag s1) st' tr2
       \<and> (\<forall>n cs. cadence n False (tr2 @ cs) = cadence (n + (500 - unat (i + 1))) False cs)
       \<and> count_list tr2 start_call = 0" ..
    have u: "Suc (500 - unat (i + 1)) = 500 - unat i"
      using True tick_i_step [OF True] by (simp add: word_less_nat_alt)
    define tr where
      "tr = (replicate (j - k) (Timer_get_flag False) @ [Timer_get_flag True, Timer_clear_flag]) @ tr2"
    have a: "extends st st' tr"
      unfolding tr_def by (rule extends_trans [OF e1 t2 [THEN conjunct1]])
    have b: "\<forall>n cs. cadence n False (tr @ cs) = cadence (n + (500 - unat i)) False cs"
    proof (intro allI)
      fix n cs
      have "cadence n False (tr @ cs) = cadence (Suc n) False (tr2 @ cs)"
        by (simp add: tr_def cadence_polls)
      also have "\<dots> = cadence (Suc n + (500 - unat (i + 1))) False cs" using t2 by simp
      also have "Suc n + (500 - unat (i + 1)) = n + (500 - unat i)" using u by simp
      finally show "cadence n False (tr @ cs) = cadence (n + (500 - unat i)) False cs" .
    qed
    have c: "count_list tr start_call = 0"
      unfolding tr_def using t2 count_polls [of "j - k"] by (simp only: count_list_append)
    from a b c show ?thesis by iprover
  qed
qed

lemma main_loop_Some:
  "main_loop n tim k st = Some (k', st') \<Longrightarrow>
   \<exists>tr. extends st st' tr
      \<and> (\<forall>cs. cadence 0 False (tr @ cs) = cadence 0 False cs)
      \<and> count_list tr start_call = n"
proof (induction n arbitrary: k st)
  case 0
  then have "extends st st' [] \<and> (\<forall>cs. cadence 0 False ([] @ cs) = cadence 0 False cs)
      \<and> count_list [] start_call = 0"
    by (simp add: extends_refl)
  then show ?case by iprover
next
  case (Suc n)
  from Suc.prems obtain r where w: "tick_loop tim 0 k st = Some r"
    by (cases "tick_loop tim 0 k st") simp_all
  obtain k1 s1 where r: "r = (k1, s1)" by (cases r)
  from Suc.prems w r
  have rest: "main_loop n tim k1 (adc_start_conversion_regular ADC1 s1) = Some (k', st')"
    by simp
  from tick_loop_Some [OF w [unfolded r]] obtain tr1 where t1:
    "extends st s1 tr1
     \<and> (\<forall>n cs. cadence n False (tr1 @ cs) = cadence (n + (500 - unat (0 :: uint16_t))) False cs)
     \<and> count_list tr1 start_call = 0" ..
  from Suc.IH [OF rest] obtain tr2 where t2:
    "extends (adc_start_conversion_regular ADC1 s1) st' tr2
     \<and> (\<forall>cs. cadence 0 False (tr2 @ cs) = cadence 0 False cs)
     \<and> count_list tr2 start_call = n" ..
  have e: "extends s1 (adc_start_conversion_regular ADC1 s1) [start_call]"
    by (simp add: adc_start_conversion_regular_def extends_log)
  define tr where "tr = (tr1 @ [start_call]) @ tr2"
  have a: "extends st st' tr"
    unfolding tr_def
    by (rule extends_trans [OF extends_trans [OF t1 [THEN conjunct1] e] t2 [THEN conjunct1]])
  have b: "\<forall>cs. cadence 0 False (tr @ cs) = cadence 0 False cs"
  proof
    fix cs
    have "cadence 0 False (tr @ cs) = cadence 0 False (tr1 @ (start_call # tr2 @ cs))"
      by (simp add: tr_def)
    also have "\<dots> = cadence 500 False (start_call # tr2 @ cs)" using t1 by simp
    also have "\<dots> = cadence 0 False (tr2 @ cs)" by simp
    also have "\<dots> = cadence 0 False cs" using t2 by simp
    finally show "cadence 0 False (tr @ cs) = cadence 0 False cs" .
  qed
  have c: "count_list tr start_call = Suc n"
    using t1 t2 by (simp add: tr_def)
  from a b c show ?case by iprover
qed

lemma tick_loop_live:
  "(\<forall>k. \<exists>j. k \<le> j \<and> tim j) \<Longrightarrow> \<exists>r. tick_loop tim i k st = Some r"
proof (induction tim i k st rule: tick_loop.induct)
  case (1 tim i k st)
  show ?case
  proof (cases "i < 500")
    case False
    then show ?thesis by (simp add: tick_loop.simps [of tim i])
  next
    case True
    from "1.prems" obtain j where "k \<le> j \<and> tim j" by blast
    then have "k \<le> j" "tim j" by simp_all
    from wait_cc1if_live [where tim = tim and k = k and st = st, OF this]
    obtain r where w: "wait_cc1if tim k st = Some r" ..
    obtain k1 s1 where r: "r = (k1, s1)" by (cases r)
    from "1.IH" [OF True w r [symmetric] "1.prems"]
    obtain r' where "tick_loop tim (i + 1) k1 (timer_clear_flag s1) = Some r'" ..
    then have "tick_loop tim i k st = Some r'"
      using True w r by (simp add: tick_loop.simps [of tim i])
    then show ?thesis by iprover
  qed
qed

lemma main_loop_live:
  "(\<forall>k. \<exists>j. k \<le> j \<and> tim j) \<Longrightarrow> \<exists>r. main_loop n tim k st = Some r"
proof (induction n arbitrary: k st)
  case 0
  show ?case by simp
next
  case (Suc n)
  from tick_loop_live [OF Suc.prems, of 0 k st] obtain r where w: "tick_loop tim 0 k st = Some r" ..
  obtain k1 s1 where r: "r = (k1, s1)" by (cases r)
  from Suc.IH [OF Suc.prems, of k1 "adc_start_conversion_regular ADC1 s1"]
  obtain r' where "main_loop n tim k1 (adc_start_conversion_regular ADC1 s1) = Some r'" ..
  then have "main_loop (Suc n) tim k st = Some r'" using w r by simp
  then show ?case by iprover
qed

lemma tick_loop_None:
  "(\<forall>j. k \<le> j \<longrightarrow> \<not> tim j) \<Longrightarrow> i < 500 \<Longrightarrow> tick_loop tim i k st = None"
  by (simp add: tick_loop.simps [of tim i] wait_cc1if_None)

lemma main_loop_None:
  "(\<forall>j. k \<le> j \<longrightarrow> \<not> tim j) \<Longrightarrow> main_loop (Suc n) tim k st = None"
  by (simp add: tick_loop_None)

lemma cal_polls_append: "cal_polls (xs @ ys) = cal_polls xs @ cal_polls ys"
  by (simp add: cal_polls_def)

lemma cal_polls_wait:
  "cal_polls (replicate m (Adc_is_calibrating a True) @ [Adc_is_calibrating a False])
     = replicate m (Adc_is_calibrating a True) @ [Adc_is_calibrating a False]"
  by (simp add: cal_polls_def)

lemma adc_setup_configure_calls:
  "extends st (adc_setup_configure st) (new_calls st (adc_setup_configure st))"
  "cal_polls (new_calls st (adc_setup_configure st)) = []"
  by (simp_all add: extends_def new_calls_def adc_setup_configure_def run_def lib_def log_def
      nop_delay_def cal_polls_def)

lemma adc_setup_second_calls:
  "extends st (adc_setup_second st) (new_calls st (adc_setup_second st))"
  "cal_polls (new_calls st (adc_setup_second st)) = []"
  by (simp_all add: extends_def new_calls_def adc_setup_second_def run_def lib_def log_def
      nop_delay_def cal_polls_def)

lemma adc_setup_Some:
  assumes "adc_setup cal1 cal2 st = Some st'"
  shows "\<exists>k1 k2. \<not> cal1 k1 \<and> \<not> cal2 k2
     \<and> cal_polls (new_calls st st')
       = replicate k1 (Adc_is_calibrating ADC1 True) @ [Adc_is_calibrating ADC1 False]
         @ replicate k2 (Adc_is_calibrating ADC2 True) @ [Adc_is_calibrating ADC2 False]"
proof -
  from assms obtain s2 where w1: "wait_calibration ADC1 cal1 0 (adc_setup_configure st) = Some s2"
    and w2: "wait_calibration ADC2 cal2 0 (adc_setup_second s2) = Some st'"
    by (auto simp: adc_setup_def split: bind_splits)
  from wait_calibration_Some [OF w1] obtain k1 where k1: "0 \<le> k1 \<and> \<not> cal1 k1
      \<and> (\<forall>i. 0 \<le> i \<and> i < k1 \<longrightarrow> cal1 i)
      \<and> s2 = (adc_setup_configure st)\<lparr>calls := calls (adc_setup_configure st)
            @ replicate (k1 - 0) (Adc_is_calibrating ADC1 True) @ [Adc_is_calibrating ADC1 False]\<rparr>" ..
  from wait_calibration_Some [OF w2] obtain k2 where k2: "0 \<le> k2 \<and> \<not> cal2 k2
      \<and> (\<forall>i. 0 \<le> i \<and> i < k2 \<longrightarrow> cal2 i)
      \<and> st' = (adc_setup_second s2)\<lparr>calls := calls (adc_setup_second s2)
            @ replicate (k2 - 0) (Adc_is_calibrating ADC2 True) @ [Adc_is_calibrating ADC2 False]\<rparr>" ..
  define t1 where "t1 = new_calls st (adc_setup_configure st)"
  define t2 where "t2 = new_calls s2 (adc_setup_second s2)"
  have e1: "extends st (adc_setup_configure st) t1" and c1: "cal_polls t1 = []"
    unfolding t1_def by (rule adc_setup_configure_calls)+
  have e2: "extends s2 (adc_setup_second s2) t2" and c2: "cal_polls t2 = []"
    unfolding t2_def by (rule adc_setup_second_calls)+
  have e3: "extends (adc_setup_configure st) s2
      (replicate k1 (Adc_is_calibrating ADC1 True) @ [Adc_is_calibrating ADC1 False])"
    using k1 by (simp add: extends_def)
  have e4: "extends (adc_setup_second s2) st'
      (replicate k2 (Adc_is_calibrating ADC2 True) @ [Adc_is_calibrating ADC2 False])"
    using k2 by (simp add: extends_def)
  note e = extends_trans [OF extends_trans [OF extends_trans [OF e1 e3] e2] e4]
  have "cal_polls (new_calls st st')
       = replicate k1 (Adc_is_calibrating ADC1 True) @ [Adc_is_calibrating ADC1 False]
         @ replicate k2 (Adc_is_calibrating ADC2 True) @ [Adc_is_calibrating ADC2 False]"
    unfolding extends_new_calls [OF e]
    using c1 c2 by (simp add: cal_polls_def)
  with k1 k2 show ?thesis by iprover
qed

lemma adc_setup_None1: "(\<forall>j. cal1 j) \<Longrightarrow> adc_setup cal1 cal2 st = None"
  by (simp add: adc_setup_def wait_calibration_None)

lemma adc_setup_None2: "(\<forall>j. cal2 j) \<Longrightarrow> adc_setup cal1 cal2 st = None"
  by (simp add: adc_setup_def wait_calibration_None split: bind_splits)

lemma adc_setup_live:
  "\<not> cal1 j1 \<Longrightarrow> \<not> cal2 j2 \<Longrightarrow> \<exists>st'. adc_setup cal1 cal2 st = Some st'"
proof -
  assume a: "\<not> cal1 j1" and b: "\<not> cal2 j2"
  from wait_calibration_live [where cal = cal1 and k = 0 and a = ADC1
      and st = "adc_setup_configure st", OF le0 a]
  obtain s2 where w1: "wait_calibration ADC1 cal1 0 (adc_setup_configure st) = Some s2" ..
  from wait_calibration_live [where cal = cal2 and k = 0 and a = ADC2
      and st = "adc_setup_second s2", OF le0 b]
  obtain s3 where w2: "wait_calibration ADC2 cal2 0 (adc_setup_second s2) = Some s3" ..
  from w1 w2 have "adc_setup cal1 cal2 st = Some s3" by (simp add: adc_setup_def)
  then show ?thesis by iprover
qed

subsection \<open>The polls of the main loop and the compare flag\<close>

lemma polls_append: "polls (xs @ ys) = polls xs @ polls ys"
  by (induction xs rule: polls.induct) simp_all

lemma polls_replicate: "polls (replicate m (Timer_get_flag b)) = replicate m b"
  by (induction m) simp_all

lemma upt_split: "k \<le> m \<Longrightarrow> m \<le> n \<Longrightarrow> [k..<n] = [k..<m] @ [m..<n]"
proof -
  assume a: "k \<le> m" and b: "m \<le> n"
  from b have "n = m + (n - m)" by simp
  then have "[k..<n] = [k..<m + (n - m)]" by simp
  also have "\<dots> = [k..<m] @ [m..<m + (n - m)]" using a by (rule upt_add_eq_append)
  also have "m + (n - m) = n" using b by simp
  finally show ?thesis .
qed

lemma map_unset:
  "(\<forall>i. k \<le> i \<and> i < j \<longrightarrow> \<not> tim i) \<Longrightarrow> map tim [k..<j] = replicate (j - k) False"
proof (induction j)
  case 0
  show ?case by simp
next
  case (Suc j)
  show ?case
  proof (cases "k \<le> j")
    case False
    then show ?thesis by simp
  next
    case True
    have "\<forall>i. k \<le> i \<and> i < j \<longrightarrow> \<not> tim i" using Suc.prems by simp
    from Suc.IH [OF this] have "map tim [k..<j] = replicate (j - k) False" .
    moreover have "\<not> tim j" using Suc.prems True by simp
    moreover have "Suc j - k = Suc (j - k)" using True by simp
    ultimately show ?thesis using True by (simp add: replicate_append_same)
  qed
qed

lemma wait_polls:
  assumes "k \<le> j" and "tim j" and "\<forall>i. k \<le> i \<and> i < j \<longrightarrow> \<not> tim i"
  shows "polls (replicate (j - k) (Timer_get_flag False) @ [Timer_get_flag True, Timer_clear_flag])
           = map tim [k..<Suc j]"
    and "length (filter tim [k..<Suc j]) = 1"
proof -
  have m: "map tim [k..<j] = replicate (j - k) False" using assms(3) by (rule map_unset)
  have u: "[k..<Suc j] = [k..<j] @ [j]" using assms(1) by simp
  show "polls (replicate (j - k) (Timer_get_flag False) @ [Timer_get_flag True, Timer_clear_flag])
           = map tim [k..<Suc j]"
    unfolding u using m assms(2) by (simp add: polls_append polls_replicate)
  have "filter tim [k..<j] = []" using assms(3) by (simp add: filter_empty_conv)
  then show "length (filter tim [k..<Suc j]) = 1"
    unfolding u using assms(2) by simp
qed

lemma tick_loop_tied:
  "tick_loop tim i k st = Some (k', st') \<Longrightarrow>
   \<exists>tr. extends st st' tr \<and> k \<le> k' \<and> polls tr = map tim [k..<k']
      \<and> length (filter tim [k..<k']) = 500 - unat i"
proof (induction tim i k st arbitrary: k' st' rule: tick_loop.induct)
  case (1 tim i k st)
  show ?case
  proof (cases "i < 500")
    case False
    with "1.prems" have "st' = st" "k' = k" by (simp_all add: tick_loop.simps [of tim i])
    moreover from False have "500 - unat i = 0" by (simp add: word_less_nat_alt)
    ultimately have "extends st st' [] \<and> k \<le> k' \<and> polls [] = map tim [k..<k']
      \<and> length (filter tim [k..<k']) = 500 - unat i"
      by (simp add: extends_refl)
    then show ?thesis by iprover
  next
    case True
    from "1.prems" True obtain r where w: "wait_cc1if tim k st = Some r"
      by (cases "wait_cc1if tim k st") (simp_all add: tick_loop.simps [of tim i])
    obtain k1 s1 where r: "r = (k1, s1)" by (cases r)
    from "1.prems" True w r
    have rest: "tick_loop tim (i + 1) k1 (timer_clear_flag s1) = Some (k', st')"
      by (simp add: tick_loop.simps [of tim i])
    from wait_cc1if_Some [OF w] obtain j where jj: "k \<le> j \<and> tim j
        \<and> (\<forall>i. k \<le> i \<and> i < j \<longrightarrow> \<not> tim i)
        \<and> r = (Suc j, st\<lparr>calls := calls st @ replicate (j - k) (Timer_get_flag False)
                                    @ [Timer_get_flag True]\<rparr>)" ..
    note j = jj [THEN conjunct1] jj [THEN conjunct2, THEN conjunct1]
      jj [THEN conjunct2, THEN conjunct2, THEN conjunct1]
      jj [THEN conjunct2, THEN conjunct2, THEN conjunct2]
    have k1: "k1 = Suc j" using j(4) r by simp
    have "s1 = st\<lparr>calls := calls st @ replicate (j - k) (Timer_get_flag False)
                                    @ [Timer_get_flag True]\<rparr>"
      using j(4) r by simp
    then have e1: "extends st (timer_clear_flag s1)
        (replicate (j - k) (Timer_get_flag False) @ [Timer_get_flag True, Timer_clear_flag])"
      by (simp add: extends_def timer_clear_flag_def log_def)
    note p = wait_polls [OF j(1) j(2) j(3)]
    from "1.IH" [OF True w r [symmetric] rest] obtain tr2 where t2:
      "extends (timer_clear_flag s1) st' tr2 \<and> k1 \<le> k' \<and> polls tr2 = map tim [k1..<k']
       \<and> length (filter tim [k1..<k']) = 500 - unat (i + 1)" ..
    note t = t2 [THEN conjunct1] t2 [THEN conjunct2, THEN conjunct1]
      t2 [THEN conjunct2, THEN conjunct2, THEN conjunct1]
      t2 [THEN conjunct2, THEN conjunct2, THEN conjunct2]
    have u: "Suc (500 - unat (i + 1)) = 500 - unat i"
      using True tick_i_step [OF True] by (simp add: word_less_nat_alt)
    have le1: "k \<le> Suc j" using j(1) by simp
    have le2: "Suc j \<le> k'" using t(2) k1 by simp
    have sp: "[k..<k'] = [k..<Suc j] @ [Suc j..<k']" using le1 le2 by (rule upt_split)
    define tr where
      "tr = (replicate (j - k) (Timer_get_flag False) @ [Timer_get_flag True, Timer_clear_flag]) @ tr2"
    have a: "extends st st' tr"
      unfolding tr_def by (rule extends_trans [OF e1 t(1)])
    have b: "k \<le> k'" using le1 le2 by simp
    have c: "polls tr = map tim [k..<k']"
      unfolding tr_def sp using p(1) t(3) k1 by (simp only: polls_append map_append)
    have d: "length (filter tim [k..<k']) = 500 - unat i"
      unfolding sp using p(2) t(4) k1 u by simp
    from a b c d show ?thesis by iprover
  qed
qed

lemma main_loop_tied:
  "main_loop n tim k st = Some (k', st') \<Longrightarrow>
   \<exists>tr. extends st st' tr \<and> k \<le> k' \<and> polls tr = map tim [k..<k']
      \<and> length (filter tim [k..<k']) = 500 * n"
proof (induction n arbitrary: k st)
  case 0
  then have "extends st st' [] \<and> k \<le> k' \<and> polls [] = map tim [k..<k']
      \<and> length (filter tim [k..<k']) = 500 * 0"
    by (simp add: extends_refl)
  then show ?case by iprover
next
  case (Suc n)
  from Suc.prems obtain r where w: "tick_loop tim 0 k st = Some r"
    by (cases "tick_loop tim 0 k st") simp_all
  obtain k1 s1 where r: "r = (k1, s1)" by (cases r)
  from Suc.prems w r
  have rest: "main_loop n tim k1 (adc_start_conversion_regular ADC1 s1) = Some (k', st')"
    by simp
  from tick_loop_tied [OF w [unfolded r]] obtain tr1 where t1:
    "extends st s1 tr1 \<and> k \<le> k1 \<and> polls tr1 = map tim [k..<k1]
     \<and> length (filter tim [k..<k1]) = 500 - unat (0 :: uint16_t)" ..
  note a1 = t1 [THEN conjunct1] t1 [THEN conjunct2, THEN conjunct1]
    t1 [THEN conjunct2, THEN conjunct2, THEN conjunct1]
    t1 [THEN conjunct2, THEN conjunct2, THEN conjunct2]
  from Suc.IH [OF rest] obtain tr2 where t2:
    "extends (adc_start_conversion_regular ADC1 s1) st' tr2 \<and> k1 \<le> k'
     \<and> polls tr2 = map tim [k1..<k'] \<and> length (filter tim [k1..<k']) = 500 * n" ..
  note a2 = t2 [THEN conjunct1] t2 [THEN conjunct2, THEN conjunct1]
    t2 [THEN conjunct2, THEN conjunct2, THEN conjunct1]
    t2 [THEN conjunct2, THEN conjunct2, THEN conjunct2]
  have e: "extends s1 (adc_start_conversion_regular ADC1 s1) [start_call]"
    by (simp add: adc_start_conversion_regular_def extends_log)
  have sp: "[k..<k'] = [k..<k1] @ [k1..<k']" using a1(2) a2(2) by (rule upt_split)
  define tr where "tr = (tr1 @ [start_call]) @ tr2"
  have a: "extends st st' tr"
    unfolding tr_def by (rule extends_trans [OF extends_trans [OF a1(1) e] a2(1)])
  have b: "k \<le> k'" using a1(2) a2(2) by simp
  have c: "polls tr = map tim [k..<k']"
    unfolding tr_def sp using a1(3) a2(3) by (simp add: polls_append)
  have d: "length (filter tim [k..<k']) = 500 * Suc n"
    unfolding sp using a1(4) a2(4) by simp
  from a b c d show ?case by iprover
qed

subsection \<open>The cadence of the main loop\<close>

text \<open>
  C7. In the calls of any number of completed passes of the main loop, every start
  command to ADC1 comes after exactly 500 compare events since the previous start command
  (or since the loop was entered), each event being one poll that read the flag as set
  and one clear of the flag before the next poll; there is one start command for each
  pass. The polls in the log are the readings of the flag itself, one for each poll from
  the first of the loop to the last before the final start command, in order, and exactly
  500 of them for each pass read the flag as set.
\<close>

theorem main_loop_cadence:
  "main_loop n tim k st = Some (k', st') \<Longrightarrow>
   cadence 0 False (new_calls st st')
   \<and> count_list (new_calls st st') (Adc_start_conversion_regular ADC1) = n
   \<and> k \<le> k'
   \<and> polls (new_calls st st') = map tim [k..<k']
   \<and> length (filter tim [k..<k']) = 500 * n"
proof -
  assume m: "main_loop n tim k st = Some (k', st')"
  from main_loop_Some [OF m] obtain tr where t:
    "extends st st' tr \<and> (\<forall>cs. cadence 0 False (tr @ cs) = cadence 0 False cs)
      \<and> count_list tr start_call = n" ..
  then have n: "new_calls st st' = tr" by (simp add: extends_new_calls)
  from t have "cadence 0 False (tr @ []) = cadence 0 False []" by blast
  then have 1: "cadence 0 False (new_calls st st')" unfolding n by simp
  have 2: "count_list (new_calls st st') (Adc_start_conversion_regular ADC1) = n"
    unfolding n using t by simp
  from main_loop_tied [OF m] obtain tr' where t':
    "extends st st' tr' \<and> k \<le> k' \<and> polls tr' = map tim [k..<k']
      \<and> length (filter tim [k..<k']) = 500 * n" ..
  then have n': "new_calls st st' = tr'" by (simp add: extends_new_calls)
  have 3: "k \<le> k'" "polls (new_calls st st') = map tim [k..<k']"
    "length (filter tim [k..<k']) = 500 * n"
    unfolding n' using t' by simp_all
  show ?thesis by (intro conjI) (rule 1 2 3)+
qed

theorem main_loop_cadence_witness:
  "\<exists>k' st'. main_loop 2 odd 0 init_state = Some (k', st')
     \<and> cadence 0 False (new_calls init_state st')
     \<and> count_list (new_calls init_state st') (Adc_start_conversion_regular ADC1) = 2
     \<and> polls (new_calls init_state st') = map odd [0..<k']
     \<and> length (filter odd [0..<k']) = 500 * 2"
proof -
  have "\<forall>k :: nat. \<exists>j. k \<le> j \<and> odd j"
  proof
    fix k :: nat
    have "k \<le> Suc (2 * k) \<and> odd (Suc (2 * k))" by simp
    then show "\<exists>j. k \<le> j \<and> odd j" by iprover
  qed
  from main_loop_live [OF this, of 2 0 init_state]
  obtain r where "main_loop 2 odd 0 init_state = Some r" ..
  moreover obtain k' st' where "r = (k', st')" by (cases r)
  ultimately have m: "main_loop 2 odd 0 init_state = Some (k', st')" by simp
  note c = main_loop_cadence [OF m]
  have "main_loop 2 odd 0 init_state = Some (k', st')
     \<and> cadence 0 False (new_calls init_state st')
     \<and> count_list (new_calls init_state st') (Adc_start_conversion_regular ADC1) = 2
     \<and> polls (new_calls init_state st') = map odd [0..<k']
     \<and> length (filter odd [0..<k']) = 500 * 2"
    by (intro conjI) (rule m c [THEN conjunct1] c [THEN conjunct2, THEN conjunct1]
        c [THEN conjunct2, THEN conjunct2, THEN conjunct2, THEN conjunct1]
        c [THEN conjunct2, THEN conjunct2, THEN conjunct2, THEN conjunct2])+
  then show ?thesis by iprover
qed

subsection \<open>No timeout\<close>

text \<open>
  C8. \<open>adc_setup\<close> returns only after the calibration bit of ADC1 and then that of ADC2
  were read as clear: the polls it made are a run of set readings of ADC1 ended by a clear
  one, then the same for ADC2. It never returns when one of the two bits stays set, and
  returns when both are cleared at some poll. The wait of the main loop ends only with a
  poll that read the compare flag as set; when the flag is never set from some poll on,
  the wait, the loop over the 500 ticks and the main loop do not end.
\<close>

theorem busy_waits_have_no_timeout:
  "(adc_setup cal1 cal2 st = Some st1 \<longrightarrow>
      (\<exists>k1 k2. \<not> cal1 k1 \<and> \<not> cal2 k2
         \<and> cal_polls (new_calls st st1)
           = replicate k1 (Adc_is_calibrating ADC1 True) @ [Adc_is_calibrating ADC1 False]
             @ replicate k2 (Adc_is_calibrating ADC2 True) @ [Adc_is_calibrating ADC2 False]))
   \<and> ((\<forall>j. cal1 j) \<longrightarrow> adc_setup cal1 cal2 st = None)
   \<and> ((\<forall>j. cal2 j) \<longrightarrow> adc_setup cal1 cal2 st = None)
   \<and> (\<not> cal1 j1 \<and> \<not> cal2 j2 \<longrightarrow> (\<exists>st'. adc_setup cal1 cal2 st = Some st'))
   \<and> (wait_cc1if tim k st = Some (k', st2) \<longrightarrow>
        k < k' \<and> tim (k' - 1)
        \<and> new_calls st st2 = replicate (k' - 1 - k) (Timer_get_flag False) @ [Timer_get_flag True])
   \<and> ((\<forall>j. k \<le> j \<longrightarrow> \<not> tim j) \<longrightarrow>
        wait_cc1if tim k st = None
        \<and> (i < 500 \<longrightarrow> tick_loop tim i k st = None)
        \<and> main_loop (Suc n) tim k st = None)"
proof -
  have 5: "k < k' \<and> tim (k' - 1)
        \<and> new_calls st st2 = replicate (k' - 1 - k) (Timer_get_flag False) @ [Timer_get_flag True]"
    if w: "wait_cc1if tim k st = Some (k', st2)"
  proof -
    from wait_cc1if_Some [OF w] obtain j where "k \<le> j \<and> tim j
        \<and> (\<forall>i. k \<le> i \<and> i < j \<longrightarrow> \<not> tim i)
        \<and> (k', st2) = (Suc j, st\<lparr>calls := calls st @ replicate (j - k) (Timer_get_flag False)
                                    @ [Timer_get_flag True]\<rparr>)" ..
    then show ?thesis by (simp add: new_calls_def)
  qed
  show ?thesis
    using adc_setup_Some [of cal1 cal2 st st1] adc_setup_None1 [of cal1 cal2 st]
      adc_setup_None2 [of cal2 cal1 st] adc_setup_live [of cal1 j1 cal2 j2 st] 5
      wait_cc1if_None [of k tim st] tick_loop_None [of k tim i st] main_loop_None [of k tim n st]
    by (intro conjI impI) simp_all
qed

theorem busy_waits_have_no_timeout_witness:
  "adc_setup (\<lambda>j. True) (\<lambda>j. False) init_state = None
   \<and> adc_setup (\<lambda>j. False) (\<lambda>j. True) init_state = None
   \<and> (\<exists>st'. adc_setup (\<lambda>j. j < 2) (\<lambda>j. j < 3) init_state = Some st')
   \<and> wait_cc1if (\<lambda>j. False) 0 init_state = None
   \<and> tick_loop (\<lambda>j. False) 0 0 init_state = None
   \<and> main_loop (Suc 0) (\<lambda>j. False) 0 init_state = None
   \<and> wait_cc1if (\<lambda>j. 1 < j) 0 init_state
       = Some (3, init_state\<lparr>calls := [Timer_get_flag False, Timer_get_flag False,
                                         Timer_get_flag True]\<rparr>)
   \<and> new_calls init_state
        (init_state\<lparr>calls := [Timer_get_flag False, Timer_get_flag False, Timer_get_flag True]\<rparr>)
       = replicate (3 - 1 - 0) (Timer_get_flag False) @ [Timer_get_flag True]"
proof -
  note a = busy_waits_have_no_timeout [of "\<lambda>j. True" "\<lambda>j. False" init_state _ _ _ "\<lambda>j. False" 0 _ _ 0 0]
  note b = busy_waits_have_no_timeout [of "\<lambda>j. False" "\<lambda>j. True" init_state]
  note c = busy_waits_have_no_timeout [of "\<lambda>j. j < 2" "\<lambda>j. j < 3" init_state _ 2 3]
  have w: "wait_cc1if (\<lambda>j. 1 < j) 0 init_state
       = Some (3, init_state\<lparr>calls := [Timer_get_flag False, Timer_get_flag False,
                                         Timer_get_flag True]\<rparr>)"
    by (simp add: wait_cc1if.simps log_def init_state_def)
  note d = busy_waits_have_no_timeout [of _ _ init_state _ _ _ "\<lambda>j. 1 < j" 0 3
      "init_state\<lparr>calls := [Timer_get_flag False, Timer_get_flag False, Timer_get_flag True]\<rparr>"]
  have 1: "adc_setup (\<lambda>j. True) (\<lambda>j. False) init_state = None"
    "wait_cc1if (\<lambda>j. False) 0 init_state = None"
    "tick_loop (\<lambda>j. False) 0 0 init_state = None"
    "main_loop (Suc 0) (\<lambda>j. False) 0 init_state = None"
    using a by simp_all
  have 2: "adc_setup (\<lambda>j. False) (\<lambda>j. True) init_state = None" using b by simp
  have 3: "\<exists>st'. adc_setup (\<lambda>j. j < 2) (\<lambda>j. j < 3) init_state = Some st'" using c by simp
  have 4: "new_calls init_state
        (init_state\<lparr>calls := [Timer_get_flag False, Timer_get_flag False, Timer_get_flag True]\<rparr>)
       = replicate (3 - 1 - 0) (Timer_get_flag False) @ [Timer_get_flag True]"
    using d [THEN conjunct2, THEN conjunct2, THEN conjunct2, THEN conjunct2, THEN conjunct1,
        THEN mp, OF w]
    by (rule conjunct2 [THEN conjunct2])
  show ?thesis
    apply (intro conjI)
           apply (rule 1(1))
          apply (rule 2)
         apply (rule 3)
        apply (rule 1(2))
       apply (rule 1(3))
      apply (rule 1(4))
     apply (rule w)
    apply (rule 4)
    done
qed

subsection \<open>Start-up and the transmit interrupt\<close>

lemma int_bytes_0: "int_bytes 0 = map of_char ''0 ''"
  by (simp add: int_bytes_def int_digits_def)

lemma sqr3_fields:
  "sqr3 [0, 1, 2, 3] 0 mod 32 = 0" "drop_bit 5 (sqr3 [0, 1, 2, 3] 0) mod 32 = 1"
  "drop_bit 10 (sqr3 [0, 1, 2, 3] 0) mod 32 = 2" "drop_bit 15 (sqr3 [0, 1, 2, 3] 0) mod 32 = 3"
  "sqr3 [4, 5, 6, 7] 0 mod 32 = 4" "drop_bit 5 (sqr3 [4, 5, 6, 7] 0) mod 32 = 5"
  "drop_bit 10 (sqr3 [4, 5, 6, 7] 0) mod 32 = 6" "drop_bit 15 (sqr3 [4, 5, 6, 7] 0) mod 32 = 7"
  by code_simp+

lemma channel_arrays:
  "take 4 (fold (\<lambda>i arr. arr[i := word_of_nat i]) [0..<4] (replicate 16 (0 :: uint8_t)))
     = [0, 1, 2, 3]"
  "take 4 (fold (\<lambda>i arr. arr[i := word_of_nat (i + 4)]) [0..<4]
             (fold (\<lambda>i arr. arr[i := word_of_nat i]) [0..<4] (replicate 16 (0 :: uint8_t))))
     = [4, 5, 6, 7]"
  "take 4 (fold (\<lambda>i arr. arr[i := word_of_nat i + 4]) [0..<4]
             (fold (\<lambda>i arr. arr[i := word_of_nat i]) [0..<4] (replicate 16 (0 :: uint8_t))))
     = [4, 5, 6, 7]"
  by code_simp+

lemma clear_v:
  "fold (\<lambda>i s. s\<lparr>v := (v s)[i := 0]\<rparr>) [0..<4] st
     = st\<lparr>v := (v st)[0 := 0, 1 := 0, 2 := 0, 3 := 0]\<rparr>"
  by (simp add: upt_4)

lemma half_n_conv: "n_conv st = 8 \<Longrightarrow> unat (n_conv st) div 2 = 4"
  by simp

lemma main_report_eq:
  assumes "n_conv st = 8"
  shows "main_report st =
    st\<lparr>v := (v st)[0 := 0, 1 := 0, 2 := 0, 3 := 0],
       send_buffer := fold (\<lambda>x b. buffer_put b x) (map of_char (banner @ report_rest))
                        (send_buffer st),
       adc1_sq := [0, 1, 2, 3],
       adc2_sq := [4, 5, 6, 7],
       calls := calls st @ map (Buffer_put Send) (map of_char banner)
                  @ [Adc_set_regular_sequence ADC1 [0, 1, 2, 3],
                     Adc_set_regular_sequence ADC2 [4, 5, 6, 7]]
                  @ map (Buffer_put Send) (map of_char report_rest)\<rparr>"
proof -
  have n: "n_conv (usart_print_string s st) = n_conv st" for s
    by (simp add: usart_print_string_emit emit_bytes_def)
  show ?thesis
    unfolding main_report_def Let_def
    apply (simp only: n half_n_conv [OF assms] adc_set_regular_sequence_def)
    apply (simp add: channel_arrays clear_v log_def usart_print_string_emit emit_bytes_def
        c_string_def n assms del: fold_simps upt_Suc)
    apply (simp add: run_def usart_print_string_emit usart_print_int_emit emit_bytes_def
        sqr3_fields int_bytes_eval int_bytes_0 c_string_def banner_def report_rest_def)
    done
qed

lemma quiet_append: "quiet (xs @ ys) = (quiet xs \<and> quiet ys)"
  by (auto simp: quiet_def pushed_append sent_append)

lemma quiet_Nil: "quiet []"
  by (simp add: quiet_def)

lemma quiet_cal_wait:
  "quiet (replicate m (Adc_is_calibrating a True))" "quiet [Adc_is_calibrating a False]"
  by (induction m) (simp_all add: quiet_def)

lemma quiet_timer_wait:
  "quiet (replicate m (Timer_get_flag False))" "quiet [Timer_get_flag True]"
  by (induction m) (simp_all add: quiet_def)

lemma adc_setup_configure_quiet: "quiet (new_calls st (adc_setup_configure st))"
  by (simp add: quiet_def new_calls_def adc_setup_configure_def run_def lib_def log_def
      nop_delay_def)

lemma adc_setup_second_quiet: "quiet (new_calls st (adc_setup_second st))"
  by (simp add: quiet_def new_calls_def adc_setup_second_def run_def lib_def log_def
      nop_delay_def)

lemma adc_setup_quiet:
  assumes "adc_setup cal1 cal2 st = Some st'"
  shows "\<exists>tr. extends st st' tr \<and> quiet tr"
proof -
  from assms obtain s2 where w1: "wait_calibration ADC1 cal1 0 (adc_setup_configure st) = Some s2"
    and w2: "wait_calibration ADC2 cal2 0 (adc_setup_second s2) = Some st'"
    by (auto simp: adc_setup_def split: bind_splits)
  from wait_calibration_Some [OF w1] obtain k1 where k1: "0 \<le> k1 \<and> \<not> cal1 k1
      \<and> (\<forall>i. 0 \<le> i \<and> i < k1 \<longrightarrow> cal1 i)
      \<and> s2 = (adc_setup_configure st)\<lparr>calls := calls (adc_setup_configure st)
            @ replicate (k1 - 0) (Adc_is_calibrating ADC1 True) @ [Adc_is_calibrating ADC1 False]\<rparr>" ..
  from wait_calibration_Some [OF w2] obtain k2 where k2: "0 \<le> k2 \<and> \<not> cal2 k2
      \<and> (\<forall>i. 0 \<le> i \<and> i < k2 \<longrightarrow> cal2 i)
      \<and> st' = (adc_setup_second s2)\<lparr>calls := calls (adc_setup_second s2)
            @ replicate (k2 - 0) (Adc_is_calibrating ADC2 True) @ [Adc_is_calibrating ADC2 False]\<rparr>" ..
  have e1: "extends st (adc_setup_configure st) (new_calls st (adc_setup_configure st))"
    by (rule adc_setup_configure_calls)
  have e2: "extends s2 (adc_setup_second s2) (new_calls s2 (adc_setup_second s2))"
    by (rule adc_setup_second_calls)
  have e3: "extends (adc_setup_configure st) s2
      (replicate k1 (Adc_is_calibrating ADC1 True) @ [Adc_is_calibrating ADC1 False])"
    using k1 by (simp add: extends_def)
  have e4: "extends (adc_setup_second s2) st'
      (replicate k2 (Adc_is_calibrating ADC2 True) @ [Adc_is_calibrating ADC2 False])"
    using k2 by (simp add: extends_def)
  note e = extends_trans [OF extends_trans [OF extends_trans [OF e1 e3] e2] e4]
  have "quiet (((new_calls st (adc_setup_configure st)
      @ replicate k1 (Adc_is_calibrating ADC1 True) @ [Adc_is_calibrating ADC1 False])
      @ new_calls s2 (adc_setup_second s2))
      @ replicate k2 (Adc_is_calibrating ADC2 True) @ [Adc_is_calibrating ADC2 False])"
    by (simp only: quiet_append adc_setup_configure_quiet adc_setup_second_quiet quiet_cal_wait
        simp_thms)
  with e show ?thesis by iprover
qed

lemma main_init_before:
  "calls (run [clock_setup, gpio_setup, usart_setup, dma_setup] st)
     = calls st @ new_calls st (run [clock_setup, gpio_setup, usart_setup, dma_setup] st)"
  "quiet (new_calls st (run [clock_setup, gpio_setup, usart_setup, dma_setup] st))"
  "send_buffer (run [clock_setup, gpio_setup, usart_setup, dma_setup] st) = send_buffer st"
  "n_conv (run [clock_setup, gpio_setup, usart_setup, dma_setup] st) = n_conv st"
  by (simp_all add: quiet_def new_calls_def run_def clock_setup_def gpio_setup_def usart_setup_def
      dma_setup_eq dma_setup_calls_def usart_disable_tx_interrupt_def lib_def log_def)

lemma main_init_after:
  "calls (run [timer_setup, init_send BUFFER_SIZE, init_receive BUFFER_SIZE,
               usart_enable_tx_interrupt] st)
     = calls st @ new_calls st (run [timer_setup, init_send BUFFER_SIZE,
                                     init_receive BUFFER_SIZE, usart_enable_tx_interrupt] st)"
  "quiet (new_calls st (run [timer_setup, init_send BUFFER_SIZE, init_receive BUFFER_SIZE,
                             usart_enable_tx_interrupt] st))"
  "last (new_calls st (run [timer_setup, init_send BUFFER_SIZE, init_receive BUFFER_SIZE,
                            usart_enable_tx_interrupt] st)) = Usart_enable_tx_interrupt"
  "new_calls st (run [timer_setup, init_send BUFFER_SIZE, init_receive BUFFER_SIZE,
                      usart_enable_tx_interrupt] st) \<noteq> []"
  "send_buffer (run [timer_setup, init_send BUFFER_SIZE, init_receive BUFFER_SIZE,
                     usart_enable_tx_interrupt] st) = buffer_init (send_buffer st) BUFFER_SIZE"
  "n_conv (run [timer_setup, init_send BUFFER_SIZE, init_receive BUFFER_SIZE,
                usart_enable_tx_interrupt] st) = n_conv st"
  "txeie (run [timer_setup, init_send BUFFER_SIZE, init_receive BUFFER_SIZE,
               usart_enable_tx_interrupt] st)"
  by (simp_all add: quiet_def new_calls_def run_def timer_setup_def init_send_def
      init_receive_def usart_enable_tx_interrupt_def lib_def log_def)

lemma main_init_Some:
  assumes "main_init cal1 cal2 st = Some s1"
  shows "txeie s1" and "send_buffer s1 = buffer_init (send_buffer st) BUFFER_SIZE"
    and "n_conv s1 = n_conv st" and "quiet (new_calls st s1)"
    and "last (new_calls st s1) = Usart_enable_tx_interrupt"
proof -
  define sA where "sA = run [clock_setup, gpio_setup, usart_setup, dma_setup] st"
  obtain sa where a: "adc_setup cal1 cal2 sA = Some sa"
    using assms by (cases "adc_setup cal1 cal2 sA") (simp_all add: main_init_def sA_def)
  have s1: "s1 = run [timer_setup, init_send BUFFER_SIZE, init_receive BUFFER_SIZE,
                      usart_enable_tx_interrupt] sa"
    using assms a by (simp add: main_init_def sA_def)
  from adc_setup_quiet [OF a] obtain tr where tr: "extends sA sa tr \<and> quiet tr" ..
  then have sa: "calls sa = calls sA @ tr" "send_buffer sa = send_buffer sA"
    "n_conv sa = n_conv sA"
    by (simp_all add: extends_def)
  define tA where "tA = new_calls st sA"
  define tB where "tB = new_calls sa s1"
  have cA: "calls sA = calls st @ tA" and qA: "quiet tA"
    unfolding tA_def sA_def by (rule main_init_before)+
  have cB: "calls s1 = calls sa @ tB" and qB: "quiet tB"
    and lB: "last tB = Usart_enable_tx_interrupt" and nB: "tB \<noteq> []"
    unfolding tB_def s1 by (rule main_init_after)+
  have n: "new_calls st s1 = tA @ tr @ tB"
    by (simp add: new_calls_def cB sa cA)
  show "txeie s1" unfolding s1 by (rule main_init_after)
  show "send_buffer s1 = buffer_init (send_buffer st) BUFFER_SIZE"
    unfolding s1 by (simp add: main_init_after sa sA_def main_init_before)
  show "n_conv s1 = n_conv st"
    unfolding s1 by (simp add: main_init_after sa sA_def main_init_before)
  show "quiet (new_calls st s1)"
    unfolding n using qA qB tr by (simp add: quiet_append)
  show "last (new_calls st s1) = Usart_enable_tx_interrupt"
    unfolding n using lB nB by simp
qed

lemma tick_loop_quiet:
  "tick_loop tim i k st = Some (k', st') \<Longrightarrow> \<exists>tr. extends st st' tr \<and> quiet tr"
proof (induction tim i k st arbitrary: k' st' rule: tick_loop.induct)
  case (1 tim i k st)
  show ?case
  proof (cases "i < 500")
    case False
    with "1.prems" have "st' = st" by (simp add: tick_loop.simps [of tim i])
    then have "extends st st' [] \<and> quiet []" by (simp add: extends_refl quiet_Nil)
    then show ?thesis by iprover
  next
    case True
    from "1.prems" True obtain r where w: "wait_cc1if tim k st = Some r"
      by (cases "wait_cc1if tim k st") (simp_all add: tick_loop.simps [of tim i])
    obtain k1 s1 where r: "r = (k1, s1)" by (cases r)
    from "1.prems" True w r
    have rest: "tick_loop tim (i + 1) k1 (timer_clear_flag s1) = Some (k', st')"
      by (simp add: tick_loop.simps [of tim i])
    from wait_cc1if_Some [OF w] obtain j where "k \<le> j \<and> tim j
        \<and> (\<forall>i. k \<le> i \<and> i < j \<longrightarrow> \<not> tim i)
        \<and> r = (Suc j, st\<lparr>calls := calls st @ replicate (j - k) (Timer_get_flag False)
                                    @ [Timer_get_flag True]\<rparr>)" ..
    then have "s1 = st\<lparr>calls := calls st @ replicate (j - k) (Timer_get_flag False)
                                    @ [Timer_get_flag True]\<rparr>"
      using r by simp
    then have e1: "extends st (timer_clear_flag s1)
        (replicate (j - k) (Timer_get_flag False) @ [Timer_get_flag True, Timer_clear_flag])"
      by (simp add: extends_def timer_clear_flag_def log_def)
    have q1: "quiet (replicate (j - k) (Timer_get_flag False) @ [Timer_get_flag True, Timer_clear_flag])"
      using quiet_timer_wait(1) [of "j - k"] by (simp add: quiet_append) (simp add: quiet_def)
    from "1.IH" [OF True w r [symmetric] rest] obtain tr2 where
      t2: "extends (timer_clear_flag s1) st' tr2 \<and> quiet tr2" ..
    have "extends st st'
        ((replicate (j - k) (Timer_get_flag False) @ [Timer_get_flag True, Timer_clear_flag]) @ tr2)"
      by (rule extends_trans [OF e1 t2 [THEN conjunct1]])
    moreover have "quiet
        ((replicate (j - k) (Timer_get_flag False) @ [Timer_get_flag True, Timer_clear_flag]) @ tr2)"
      using q1 t2 by (simp only: quiet_append simp_thms)
    ultimately show ?thesis by iprover
  qed
qed

lemma main_loop_quiet:
  "main_loop n tim k st = Some (k', st') \<Longrightarrow> \<exists>tr. extends st st' tr \<and> quiet tr"
proof (induction n arbitrary: k st)
  case 0
  then have "extends st st' [] \<and> quiet []" by (simp add: extends_refl quiet_Nil)
  then show ?case by iprover
next
  case (Suc n)
  from Suc.prems obtain r where w: "tick_loop tim 0 k st = Some r"
    by (cases "tick_loop tim 0 k st") simp_all
  obtain k1 s1 where r: "r = (k1, s1)" by (cases r)
  from Suc.prems w r
  have rest: "main_loop n tim k1 (adc_start_conversion_regular ADC1 s1) = Some (k', st')"
    by simp
  from tick_loop_quiet [OF w [unfolded r]] obtain tr1 where t1: "extends st s1 tr1 \<and> quiet tr1" ..
  from Suc.IH [OF rest] obtain tr2 where
    t2: "extends (adc_start_conversion_regular ADC1 s1) st' tr2 \<and> quiet tr2" ..
  have e: "extends s1 (adc_start_conversion_regular ADC1 s1) [start_call]"
    by (simp add: adc_start_conversion_regular_def extends_log)
  have "extends st st' ((tr1 @ [start_call]) @ tr2)"
    by (rule extends_trans [OF extends_trans [OF t1 [THEN conjunct1] e] t2 [THEN conjunct1]])
  moreover have "quiet [start_call]" by (simp add: quiet_def)
  then have "quiet ((tr1 @ [start_call]) @ tr2)"
    using t1 t2 by (simp only: quiet_append simp_thms)
  ultimately show ?case by iprover
qed

lemma main_loop_silent:
  assumes "main_loop n tim k st = Some (k', st')"
  shows "txeie st' = txeie st" and "send_buffer st' = send_buffer st"
    and "sent (new_calls st st') = []"
proof -
  from main_loop_quiet [OF assms] obtain tr where t: "extends st st' tr \<and> quiet tr" ..
  then have e: "extends st st' tr" and q: "quiet tr" by simp_all
  show "txeie st' = txeie st" using e by (rule extends_txeie)
  show "send_buffer st' = send_buffer st" using e by (rule extends_send_buffer)
  show "sent (new_calls st st') = []"
    unfolding extends_new_calls [OF e] using q by (simp add: quiet_def)
qed

lemma sent_puts:
  "sent (map (Buffer_put b) xs) = []" "sent (map (Buffer_put b \<circ> f) ys) = []"
  by (induction xs, simp_all) (induction ys, simp_all)

lemma main_report_silent:
  assumes "n_conv st = 8"
  shows "txeie (main_report st) = txeie st" and "sent (new_calls st (main_report st)) = []"
    and "send_buffer (main_report st)
           = fold (\<lambda>x b. buffer_put b x) (map of_char (banner @ report_rest)) (send_buffer st)"
    and "take 33 (new_calls st (main_report st)) = map (Buffer_put Send) (map of_char banner)"
proof -
  note eq = main_report_eq [OF assms]
  show "txeie (main_report st) = txeie st" by (simp add: eq)
  show "sent (new_calls st (main_report st)) = []"
    by (simp add: eq new_calls_def sent_append sent_puts)
  show "send_buffer (main_report st)
           = fold (\<lambda>x b. buffer_put b x) (map of_char (banner @ report_rest)) (send_buffer st)"
    by (simp add: eq)
  have "length (map (Buffer_put Send) (map of_char banner)) = 33" by (simp add: banner_def)
  then show "take 33 (new_calls st (main_report st)) = map (Buffer_put Send) (map of_char banner)"
    by (simp add: eq new_calls_def)
qed

lemma buffer_init_wf:
  "0 < n \<Longrightarrow> n \<le> length (slots b) \<Longrightarrow> buffer_wf (buffer_init b n)"
  "0 < n \<Longrightarrow> buffer_free (buffer_init b n) = n - 1"
  "0 < n \<Longrightarrow> buffer_contents (buffer_init b n) = []"
  "head (buffer_init b n) = tail (buffer_init b n)"
  by (simp_all add: buffer_init_def buffer_wf_def buffer_free_def buffer_used_def
      buffer_contents_def)

lemma buffer_get_contents:
  assumes "buffer_wf b" and "buffer_contents b = x # xs"
  shows "head b \<noteq> tail b" and "slots b ! head b = x"
proof -
  have u: "0 < buffer_used b"
    using assms(2) by (cases "buffer_used b") (simp_all add: buffer_contents_def)
  show "head b \<noteq> tail b"
  proof
    assume "head b = tail b"
    then have "buffer_used b = 0" using assms(1) by (simp add: buffer_used_def buffer_wf_def)
    with u show False by simp
  qed
  have "buffer_contents b ! 0 = slots b ! ((head b + 0) mod capacity b)"
    unfolding buffer_contents_def using u by (simp only: nth_map length_upt minus_nat.diff_0 nth_upt add_0)
  then show "slots b ! head b = x"
    using assms by (simp add: buffer_wf_def)
qed

lemma usart1_isr_empty:
  assumes "head (send_buffer st) = tail (send_buffer st)"
  shows "usart1_isr False rx True st
    = st\<lparr>isr_data := BUFFER_EMPTY, txeie := False,
         calls := calls st @ [Usart_get_flag_RXNE False, Usart_get_flag_TXE True,
                              Buffer_get Send, Usart_disable_tx_interrupt]\<rparr>"
  by (simp add: usart1_isr_txe buffer_get_empty [OF assms] Let_def log_def)
     (simp add: BUFFER_EMPTY_def)

lemma usart1_isr_sends:
  assumes "head (send_buffer st) \<noteq> tail (send_buffer st)"
  shows "sent (new_calls st (usart1_isr rxne rx True st))
           = [ucast (slots (send_buffer st) ! head (send_buffer st))]"
    and "txeie (usart1_isr rxne rx True st) = txeie st"
  by (simp_all add: usart1_isr_txe buffer_get_nonempty [OF assms] Let_def log_def
      put_receive_def byte_high_bits byte_low_bits new_calls_def)

lemma usart1_isr_no_enable: "\<not> txeie st \<Longrightarrow> \<not> txeie (usart1_isr rxne rx txe st)"
  by (simp add: usart1_isr_def Let_def split_beta log_def put_receive_def
      usart_disable_tx_interrupt_def usart_send_def)

lemma quiet_pushed: "quiet tr \<Longrightarrow> pushed tr = []"
  by (simp add: quiet_def)

lemma length_report: "length (map of_char (banner @ report_rest) :: uint8_t list) = 87"
  by (simp add: banner_def report_rest_def)

lemma window_facts:
  assumes n8: "n_conv st = 8" and len: "BUFFER_SIZE \<le> length (slots (send_buffer st))"
    and mi: "main_init cal1 cal2 st = Some s1"
  shows "txeie s1" and "pushed (new_calls st s1) = []"
    and "last (new_calls st s1) = Usart_enable_tx_interrupt"
    and "take 33 (new_calls s1 (main_report s1)) = map (Buffer_put Send) (map of_char banner)"
    and "\<not> txeie (usart1_isr False rx True s1)"
    and "sent (new_calls s1 (usart1_isr False rx True s1)) = []"
    and "\<not> txeie (main_report (usart1_isr False rx True s1))"
    and "sent (new_calls (usart1_isr False rx True s1)
                (main_report (usart1_isr False rx True s1))) = []"
    and "buffer_wf (send_buffer (main_report (usart1_isr False rx True s1)))"
    and "buffer_contents (send_buffer (main_report (usart1_isr False rx True s1)))
           = map of_char (banner @ report_rest)"
proof -
  note m = main_init_Some [OF mi]
  define s2 where "s2 = usart1_isr False rx True s1"
  have e: "head (send_buffer s1) = tail (send_buffer s1)"
    unfolding m(2) by (rule buffer_init_wf)
  have s2: "s2 = s1\<lparr>isr_data := BUFFER_EMPTY, txeie := False,
         calls := calls s1 @ [Usart_get_flag_RXNE False, Usart_get_flag_TXE True,
                              Buffer_get Send, Usart_disable_tx_interrupt]\<rparr>"
    unfolding s2_def by (rule usart1_isr_empty [OF e])
  have n2: "n_conv s2 = 8" using m(3) n8 by (simp add: s2)
  have b2: "send_buffer s2 = buffer_init (send_buffer st) BUFFER_SIZE"
    using m(2) by (simp add: s2)
  have wf: "buffer_wf (send_buffer s2)" "buffer_free (send_buffer s2) = 127"
    "buffer_contents (send_buffer s2) = []"
    unfolding b2 using len buffer_init_wf [where n = BUFFER_SIZE and b = "send_buffer st"]
    by (simp_all add: BUFFER_SIZE_def)
  note r = main_report_silent [OF n2]
  have room: "length (map of_char (banner @ report_rest) :: uint8_t list)
      \<le> buffer_free (send_buffer s2)"
    unfolding wf(2) length_report by simp
  note p = buffer_puts_props [OF wf(1) room]
  show "txeie s1" by (rule m(1))
  show "pushed (new_calls st s1) = []" using m(4) by (rule quiet_pushed)
  show "last (new_calls st s1) = Usart_enable_tx_interrupt" by (rule m(5))
  show "take 33 (new_calls s1 (main_report s1)) = map (Buffer_put Send) (map of_char banner)"
    using m(3) n8 by (intro main_report_silent(4)) simp
  show "\<not> txeie (usart1_isr False rx True s1)"
    unfolding s2_def [symmetric] by (simp add: s2)
  show "sent (new_calls s1 (usart1_isr False rx True s1)) = []"
    unfolding s2_def [symmetric] by (simp add: s2 new_calls_def)
  show "\<not> txeie (main_report (usart1_isr False rx True s1))"
    unfolding s2_def [symmetric] r(1) by (simp add: s2)
  show "sent (new_calls (usart1_isr False rx True s1)
                (main_report (usart1_isr False rx True s1))) = []"
    unfolding s2_def [symmetric] by (rule r(2))
  show "buffer_wf (send_buffer (main_report (usart1_isr False rx True s1)))"
    unfolding s2_def [symmetric] r(3) using p by simp
  show "buffer_contents (send_buffer (main_report (usart1_isr False rx True s1)))
           = map of_char (banner @ report_rest)"
    unfolding s2_def [symmetric] r(3) using p wf(3) by simp
qed

lemma main_init_live:
  "\<not> cal1 j1 \<Longrightarrow> \<not> cal2 j2 \<Longrightarrow> \<exists>s1. main_init cal1 cal2 st = Some s1"
proof -
  assume "\<not> cal1 j1" "\<not> cal2 j2"
  from adc_setup_live [of cal1 j1 cal2 j2
      "run [clock_setup, gpio_setup, usart_setup, dma_setup] st", OF this]
  obtain sa where
    "adc_setup cal1 cal2 (run [clock_setup, gpio_setup, usart_setup, dma_setup] st) = Some sa" ..
  then have "main_init cal1 cal2 st
    = Some (run [timer_setup, init_send BUFFER_SIZE, init_receive BUFFER_SIZE,
                 usart_enable_tx_interrupt] sa)"
    by (simp add: main_init_def)
  then show ?thesis by iprover
qed

lemma main_init_startup: "main_init bot bot init_state = Some startup_state"
proof -
  have "\<not> (bot :: nat \<Rightarrow> bool) 0" by simp
  from main_init_live [of bot 0 bot 0 init_state, OF this this]
  obtain s1 where "main_init bot bot init_state = Some s1" ..
  then show ?thesis by (simp add: startup_state_def)
qed

lemma init_state_facts:
  "n_conv init_state = 8" "BUFFER_SIZE \<le> length (slots (send_buffer init_state))"
  by (simp_all add: init_state_def)

text \<open>
  C10, as stated, fails in its last part. After a transmit-empty interrupt served between
  the enabling of the transmit interrupt and the greeting, the interrupt is disabled and
  the start-up text waits in the send buffer; a received byte then enters \<open>usart1_isr\<close>,
  which finds the transmit register empty and sends the first byte of the greeting
  (\<open>D\<close>, \<open>0x44\<close>), although no conversion-complete interrupt has run and the transmit
  interrupt is still disabled.
\<close>

theorem banner_sent_on_receive_counterexample:
  "main_init bot bot init_state = Some startup_state
   \<and> \<not> txeie window_state
   \<and> buffer_contents (send_buffer window_state) = map of_char (banner @ report_rest)
   \<and> usart1_irq True 0x41 True window_state = usart1_isr True 0x41 True window_state
   \<and> sent (new_calls window_state (usart1_isr True 0x41 True window_state)) = [0x44]
   \<and> \<not> txeie (usart1_isr True 0x41 True window_state)"
proof -
  note f = window_facts [OF init_state_facts main_init_startup]
  note w7 = f(7) [of 0, folded window_state_def]
  note w9 = f(9) [of 0, folded window_state_def]
  note w10 = f(10) [of 0, folded window_state_def]
  have c: "buffer_contents (send_buffer window_state)
      = 0x44 # tl (map of_char (banner @ report_rest))"
    unfolding w10 by (simp add: banner_def)
  note g = buffer_get_contents [OF w9 c]
  note s = usart1_isr_sends [where st = window_state and rxne = True and rx = "0x41", OF g(1)]
  have 1: "sent (new_calls window_state (usart1_isr True 0x41 True window_state)) = [0x44]"
    unfolding s(1) g(2) by simp
  have 2: "\<not> txeie (usart1_isr True 0x41 True window_state)"
    unfolding s(2) by (rule w7)
  have 3: "usart1_irq True 0x41 True window_state = usart1_isr True 0x41 True window_state"
    by (simp add: usart1_irq_def)
  show ?thesis
    by (intro conjI) (rule main_init_startup w7 w10 1 2 3)+
qed

text \<open>
  C10, amended. \<open>main\<close> enables the transmit interrupt as its last call before the
  greeting, with nothing put into the send buffer before. A transmit-empty interrupt
  served right then finds the buffer empty, disables the interrupt and sends nothing. The
  rest of the start-up and the main loop leave the interrupt disabled and send nothing, so
  the start-up text stays in the send buffer; while the interrupt is disabled and no byte
  is received the handler is not entered, and the handler never enables the interrupt;
  \<open>adc1_2_isr\<close> enables it. What a received byte causes in that time is left out.
\<close>

theorem transmit_enable_window:
  assumes "n_conv st = 8" and "BUFFER_SIZE \<le> length (slots (send_buffer st))"
    and "main_init cal1 cal2 st = Some s1"
  shows "txeie s1 \<and> pushed (new_calls st s1) = []
     \<and> last (new_calls st s1) = Usart_enable_tx_interrupt
     \<and> take 33 (new_calls s1 (main_report s1)) = map (Buffer_put Send) (map of_char banner)
     \<and> \<not> txeie (usart1_isr False rx True s1)
     \<and> sent (new_calls s1 (usart1_isr False rx True s1)) = []
     \<and> \<not> txeie (main_report (usart1_isr False rx True s1))
     \<and> sent (new_calls (usart1_isr False rx True s1)
               (main_report (usart1_isr False rx True s1))) = []
     \<and> buffer_contents (send_buffer (main_report (usart1_isr False rx True s1)))
         = map of_char (banner @ report_rest)
     \<and> (main_loop n tim k (main_report (usart1_isr False rx True s1)) = Some (k', s4) \<longrightarrow>
          \<not> txeie s4
          \<and> sent (new_calls (main_report (usart1_isr False rx True s1)) s4) = []
          \<and> send_buffer s4 = send_buffer (main_report (usart1_isr False rx True s1)))
     \<and> (\<not> txeie s \<longrightarrow>
          usart1_irq False rx' txe s = s \<and> \<not> txeie (usart1_isr rxne rx' txe s))
     \<and> txeie (adc1_2_isr s)"
proof -
  note w = window_facts [OF assms]
  have l: "\<not> txeie s4
          \<and> sent (new_calls (main_report (usart1_isr False rx True s1)) s4) = []
          \<and> send_buffer s4 = send_buffer (main_report (usart1_isr False rx True s1))"
    if "main_loop n tim k (main_report (usart1_isr False rx True s1)) = Some (k', s4)"
    using main_loop_silent [OF that] w(7) [of rx] by simp
  have i: "usart1_irq False rx' txe s = s \<and> \<not> txeie (usart1_isr rxne rx' txe s)"
    if "\<not> txeie s"
    using that usart1_isr_no_enable [OF that] by (simp add: usart1_irq_def)
  have a: "txeie (adc1_2_isr s)" by (simp add: adc1_2_isr_eq)
  have L: "main_loop n tim k (main_report (usart1_isr False rx True s1)) = Some (k', s4) \<longrightarrow>
          \<not> txeie s4
          \<and> sent (new_calls (main_report (usart1_isr False rx True s1)) s4) = []
          \<and> send_buffer s4 = send_buffer (main_report (usart1_isr False rx True s1))"
    by (rule impI) (rule l)
  have I: "\<not> txeie s \<longrightarrow>
          usart1_irq False rx' txe s = s \<and> \<not> txeie (usart1_isr rxne rx' txe s)"
    by (rule impI) (rule i)
  show ?thesis
    by (intro conjI) (rule w(1) w(2) w(3) w(4) w(5) w(6) w(7) w(8) w(10) L I a)+
qed

theorem transmit_enable_window_witness:
  "n_conv init_state = 8
   \<and> BUFFER_SIZE \<le> length (slots (send_buffer init_state))
   \<and> main_init bot bot init_state = Some startup_state
   \<and> txeie startup_state
   \<and> pushed (new_calls init_state startup_state) = []
   \<and> \<not> txeie window_state
   \<and> buffer_contents (send_buffer window_state) = map of_char (banner @ report_rest)
   \<and> (\<exists>k' s4. main_loop 1 top 0 window_state = Some (k', s4)
         \<and> \<not> txeie s4 \<and> sent (new_calls window_state s4) = []
         \<and> send_buffer s4 = send_buffer window_state)
   \<and> usart1_irq False 0 True window_state = window_state"
proof -
  have "\<forall>k :: nat. \<exists>j. k \<le> j \<and> top j"
  proof
    fix k :: nat
    have "k \<le> k \<and> top k" by simp
    then show "\<exists>j. k \<le> j \<and> top j" by iprover
  qed
  from main_loop_live [OF this, of 1 0 window_state]
  obtain r where "main_loop 1 top 0 window_state = Some r" ..
  moreover obtain k' s4 where "r = (k', s4)" by (cases r)
  ultimately have m: "main_loop 1 top 0 window_state = Some (k', s4)" by simp
  note t = transmit_enable_window [OF init_state_facts main_init_startup,
      where rx = 0 and n = 1 and tim = top and k = 0 and k' = k' and ?s4.0 = s4
        and s = window_state and rx' = 0 and txe = True and rxne = False,
      folded window_state_def]
  have 1: "txeie startup_state" "pushed (new_calls init_state startup_state) = []"
    "\<not> txeie window_state"
    "buffer_contents (send_buffer window_state) = map of_char (banner @ report_rest)"
    "usart1_irq False 0 True window_state = window_state"
    using t by simp_all
  have "\<not> txeie s4 \<and> sent (new_calls window_state s4) = []
         \<and> send_buffer s4 = send_buffer window_state"
    using t m by simp
  with m have 2: "\<exists>k' s4. main_loop 1 top 0 window_state = Some (k', s4)
         \<and> \<not> txeie s4 \<and> sent (new_calls window_state s4) = []
         \<and> send_buffer s4 = send_buffer window_state"
    by iprover
  show ?thesis
    by (intro conjI) (rule init_state_facts main_init_startup 1 2)+
qed

end
